theory Spec2Isabelle
  imports Complex_Main "HOL-Library.Char_ord" "HOL-Library.List_Lexorder" "HOL-Library.Sublist"
begin

section \<open>The card catalogue of \<^verbatim>\<open>cards.py\<close>\<close>

text \<open>
  \<^verbatim>\<open>MTGCardDatabase\<close> keeps three SQLite tables (cards, legalities, keywords), fills them
  from the pages of a remote catalogue and answers a few queries over them. The model
  follows \<^verbatim>\<open>src/cards.py\<close> method by method. Text is a HOL \<open>string\<close>, read as the bytes
  of its UTF-8 form. A JSON object whose keys the code reads by name is a record of optional
  fields (\<open>None\<close>: the key is absent), each at the type the catalogue gives it (a text, a
  list of texts, a number): a \<^verbatim>\<open>null\<close> or a value of another type under such a key is
  outside the model. A JSON object iterated as a dictionary is an association list in the
  order of its items; the keys of a dictionary are distinct. An exception is a value of
  \<open>error\<close>, returned together with the state reached when it was raised.

  Left out: \<^verbatim>\<open>print\<close> and \<^verbatim>\<open>time.sleep\<close>, and with them \<^verbatim>\<open>total_cards\<close> and the count
  of processed cards, which are only printed; \<^verbatim>\<open>create_tables\<close>, whose schema is the type
  of the tables; \<^verbatim>\<open>get_card_details\<close>, \<^verbatim>\<open>close\<close> and \<^verbatim>\<open>main\<close>. A statement of SQLite
  fails here only where the schema makes it fail, on a repeated primary key.
\<close>

subsection \<open>Raw records, as the catalogue sends them\<close>

record face =
  face_oracle_text :: "string option"
  face_image_uris :: "(string \<times> string) list option"

record raw_card =
  raw_id :: "string option"
  raw_name :: "string option"
  raw_oracle_text :: "string option"
  raw_card_faces :: "face list option"
  raw_mana_cost :: "string option"
  raw_cmc :: "rat option"
  raw_type_line :: "string option"
  raw_power :: "string option"
  raw_toughness :: "string option"
  raw_loyalty :: "string option"
  raw_colors :: "string list option"
  raw_color_identity :: "string list option"
  raw_set :: "string option"
  raw_set_name :: "string option"
  raw_rarity :: "string option"
  raw_artist :: "string option"
  raw_released_at :: "string option"
  raw_image_uris :: "(string \<times> string) list option"
  raw_scryfall_uri :: "string option"
  raw_prices :: "(string \<times> string option) list option"
  raw_legalities :: "(string \<times> string) list option"
  raw_keywords :: "string list option"

subsection \<open>The three tables\<close>

text \<open>
  A row of \<^verbatim>\<open>cards\<close> has the 22 columns of \<^verbatim>\<open>create_tables\<close>; a column that may be
  NULL is an option. The price columns hold the text the catalogue sent (the conversion of
  the REAL affinity is not modelled). A table is the list of its rows; the primary keys are
  enforced by the INSERT statements below, not by the type.
\<close>

record card_row =
  col_id :: string
  col_name :: string
  col_oracle_text :: "string option"
  col_mana_cost :: "string option"
  col_cmc :: "rat option"
  col_type_line :: "string option"
  col_power :: "string option"
  col_toughness :: "string option"
  col_loyalty :: "string option"
  col_colors :: "string option"
  col_color_identity :: "string option"
  col_set_code :: "string option"
  col_set_name :: "string option"
  col_rarity :: "string option"
  col_artist :: "string option"
  col_released_at :: "string option"
  col_image_uri :: "string option"
  col_scryfall_uri :: "string option"
  col_price_usd :: "string option"
  col_price_eur :: "string option"
  col_price_tix :: "string option"
  col_last_updated :: "string option"

text \<open>A row of \<^verbatim>\<open>legalities\<close> is (card_id, format, status), one of \<^verbatim>\<open>keywords\<close> is (card_id, keyword).\<close>

type_synonym legality_row = "string \<times> string \<times> string"
type_synonym keyword_row = "string \<times> string"

record tables =
  cards_table :: "card_row list"
  legalities_table :: "legality_row list"
  keywords_table :: "keyword_row list"

text \<open>
  The state of a \<^verbatim>\<open>MTGCardDatabase\<close> object and of the world around it: \<open>conn\<close> is what
  the statements of the open connection see, \<open>committed\<close> what the last
  \<^verbatim>\<open>conn.commit()\<close> wrote, \<open>ticks\<close> counts the readings of the clock and \<open>fetched\<close>
  lists the URLs requested so far, oldest first.
\<close>

record state =
  conn :: tables
  committed :: tables
  ticks :: nat
  fetched :: "string list"

datatype error =
    KeyError string
  | IndexError
  | IntegrityError string
  | JSONDecodeError
  | ConnectionError

text \<open>The failures raised by the storage layer, as opposed to those of the record.\<close>

fun storage_error :: "error \<Rightarrow> bool" where
  "storage_error (IntegrityError _) = True"
| "storage_error _ = False"

subsection \<open>The remote catalogue and the clock\<close>

record page =
  data :: "raw_card list option"
  has_more :: "bool option"
  next_page :: "string option"

record response =
  status_code :: nat
  json :: "page option"

record env =
  remote :: "string \<Rightarrow> error + response"
  now :: "nat \<Rightarrow> string"

definition api_base_url :: string where
  "api_base_url = ''https://api.scryfall.com''"

subsection \<open>Strings\<close>

fun str_join :: "string \<Rightarrow> string list \<Rightarrow> string" where
  "str_join sep [] = []"
| "str_join sep [x] = x"
| "str_join sep (x # y # ys) = x @ sep @ str_join sep (y # ys)"

definition hex_digit :: "nat \<Rightarrow> char" where
  "hex_digit n = ''0123456789abcdef'' ! (n mod 16)"

text \<open>
  \<^verbatim>\<open>json.dumps\<close> of a list of strings, with Python's default separators and
  \<^verbatim>\<open>ensure_ascii\<close>. A character outside the printable ASCII range is written as
  \<^verbatim>\<open>\u00XX\<close>, one escape for each \<open>char\<close>.
\<close>

definition json_escape :: "char \<Rightarrow> string" where
  "json_escape c =
     (if c = CHR 0x22 then [CHR 0x5C, CHR 0x22]
      else if c = CHR 0x5C then [CHR 0x5C, CHR 0x5C]
      else if c = CHR 0x0A then [CHR 0x5C, CHR ''n'']
      else if c = CHR 0x0D then [CHR 0x5C, CHR ''r'']
      else if c = CHR 0x09 then [CHR 0x5C, CHR ''t'']
      else if c = CHR 0x08 then [CHR 0x5C, CHR ''b'']
      else if c = CHR 0x0C then [CHR 0x5C, CHR ''f'']
      else if 32 \<le> (of_char c :: nat) \<and> (of_char c :: nat) \<le> 126 then [c]
      else [CHR 0x5C, CHR ''u'', CHR ''0'', CHR ''0'',
            hex_digit ((of_char c :: nat) div 16), hex_digit (of_char c :: nat)])"

definition json_string :: "string \<Rightarrow> string" where
  "json_string s = [CHR 0x22] @ concat (map json_escape s) @ [CHR 0x22]"

definition json_dumps :: "string list \<Rightarrow> string" where
  "json_dumps xs = ''['' @ str_join '', '' (map json_string xs) @ '']''"

subsection \<open>The SQL statements of \<^verbatim>\<open>process_card_page\<close>\<close>

text \<open>\<^verbatim>\<open>SELECT id FROM cards WHERE id = ?\<close> and \<^verbatim>\<open>fetchone()\<close>.\<close>

definition select_id :: "tables \<Rightarrow> string \<Rightarrow> string option" where
  "select_id t card_id = map_option col_id (find (\<lambda>r. col_id r = card_id) (cards_table t))"

text \<open>\<^verbatim>\<open>UPDATE cards SET ... WHERE id = ?\<close>: every column but the id is overwritten.\<close>

definition update_card :: "tables \<Rightarrow> card_row \<Rightarrow> tables" where
  "update_card t row =
     t\<lparr>cards_table := map (\<lambda>r. if col_id r = col_id row then row else r) (cards_table t)\<rparr>"

definition delete_legalities :: "tables \<Rightarrow> string \<Rightarrow> tables" where
  "delete_legalities t card_id =
     t\<lparr>legalities_table := filter (\<lambda>row. fst row \<noteq> card_id) (legalities_table t)\<rparr>"

definition delete_keywords :: "tables \<Rightarrow> string \<Rightarrow> tables" where
  "delete_keywords t card_id =
     t\<lparr>keywords_table := filter (\<lambda>row. fst row \<noteq> card_id) (keywords_table t)\<rparr>"

text \<open>
  An INSERT that would repeat a primary key fails with \<^verbatim>\<open>sqlite3.IntegrityError\<close> and
  leaves the table as it was.
\<close>

definition insert_card :: "tables \<Rightarrow> card_row \<Rightarrow> error + tables" where
  "insert_card t row =
     (if col_id row \<in> set (map col_id (cards_table t))
      then Inl (IntegrityError ''UNIQUE constraint failed: cards.id'')
      else Inr (t\<lparr>cards_table := cards_table t @ [row]\<rparr>))"

definition legality_key :: "legality_row \<Rightarrow> string \<times> string" where
  "legality_key row = (fst row, fst (snd row))"

definition insert_legality :: "tables \<Rightarrow> legality_row \<Rightarrow> error + tables" where
  "insert_legality t row =
     (if legality_key row \<in> set (map legality_key (legalities_table t))
      then Inl (IntegrityError ''UNIQUE constraint failed: legalities.card_id, legalities.format'')
      else Inr (t\<lparr>legalities_table := legalities_table t @ [row]\<rparr>))"

definition insert_keyword :: "tables \<Rightarrow> keyword_row \<Rightarrow> error + tables" where
  "insert_keyword t row =
     (if row \<in> set (keywords_table t)
      then Inl (IntegrityError ''UNIQUE constraint failed: keywords.card_id, keywords.keyword'')
      else Inr (t\<lparr>keywords_table := keywords_table t @ [row]\<rparr>))"

text \<open>
  The two loops that insert the dependent rows. A failing INSERT raises out of the loop; the
  rows inserted before it stay in the open transaction.
\<close>

fun insert_legalities :: "tables \<Rightarrow> string \<Rightarrow> (string \<times> string) list \<Rightarrow> error option \<times> tables" where
  "insert_legalities t card_id [] = (None, t)"
| "insert_legalities t card_id ((format_name, status) # rest) =
     (case insert_legality t (card_id, format_name, status) of
        Inl e \<Rightarrow> (Some e, t)
      | Inr t' \<Rightarrow> insert_legalities t' card_id rest)"

fun insert_keywords :: "tables \<Rightarrow> string \<Rightarrow> string list \<Rightarrow> error option \<times> tables" where
  "insert_keywords t card_id [] = (None, t)"
| "insert_keywords t card_id (keyword # rest) =
     (case insert_keyword t (card_id, keyword) of
        Inl e \<Rightarrow> (Some e, t)
      | Inr t' \<Rightarrow> insert_keywords t' card_id rest)"

subsection \<open>Normalising one raw record\<close>

text \<open>Lines 210 to 217: the text of the card, or of its faces.\<close>

definition get_or :: "'a option \<Rightarrow> 'a \<Rightarrow> 'a" where
  "get_or v d = (case v of None \<Rightarrow> d | Some x \<Rightarrow> x)"

fun faces_text :: "face list \<Rightarrow> string list" where
  "faces_text [] = []"
| "faces_text (f # fs) =
     (case face_oracle_text f of
        Some text \<Rightarrow> text # faces_text fs
      | None \<Rightarrow> faces_text fs)"

definition oracle_text_of :: "raw_card \<Rightarrow> string" where
  "oracle_text_of rec =
     (let oracle_text = get_or (raw_oracle_text rec) '''' in
      case raw_card_faces rec of
        Some fs \<Rightarrow> if oracle_text = [] then str_join '' // '' (faces_text fs) else oracle_text
      | None \<Rightarrow> oracle_text)"

text \<open>
  Lines 224 to 228: the image. \<^verbatim>\<open>card['card_faces'][0]\<close> raises \<^verbatim>\<open>IndexError\<close> on an
  empty list of faces.
\<close>

definition image_uri_of :: "raw_card \<Rightarrow> error + string option" where
  "image_uri_of rec =
     (case (case raw_image_uris rec of None \<Rightarrow> None | Some uris \<Rightarrow> map_of uris ''normal'') of
        Some u \<Rightarrow> Inr (Some u)
      | None \<Rightarrow>
          (case raw_card_faces rec of
             None \<Rightarrow> Inr None
           | Some [] \<Rightarrow> Inl IndexError
           | Some (f # _) \<Rightarrow>
               (case face_image_uris f of
                  None \<Rightarrow> Inr None
                | Some uris \<Rightarrow> Inr (map_of uris ''normal''))))"

definition price_of :: "raw_card \<Rightarrow> string \<Rightarrow> string option" where
  "price_of rec k =
     (case map_of (get_or (raw_prices rec) []) k of None \<Rightarrow> None | Some v \<Rightarrow> v)"

text \<open>Lines 231 to 254: the tuple \<^verbatim>\<open>card_data\<close>.\<close>

definition card_data :: "raw_card \<Rightarrow> string \<Rightarrow> string option \<Rightarrow> string \<Rightarrow> card_row" where
  "card_data rec card_id image_uri stamp =
     \<lparr> col_id = card_id,
       col_name = get_or (raw_name rec) '''',
       col_oracle_text = Some (oracle_text_of rec),
       col_mana_cost = Some (get_or (raw_mana_cost rec) ''''),
       col_cmc = Some (get_or (raw_cmc rec) 0),
       col_type_line = Some (get_or (raw_type_line rec) ''''),
       col_power = Some (get_or (raw_power rec) ''''),
       col_toughness = Some (get_or (raw_toughness rec) ''''),
       col_loyalty = Some (get_or (raw_loyalty rec) ''''),
       col_colors = Some (json_dumps (get_or (raw_colors rec) [])),
       col_color_identity = Some (json_dumps (get_or (raw_color_identity rec) [])),
       col_set_code = Some (get_or (raw_set rec) ''''),
       col_set_name = Some (get_or (raw_set_name rec) ''''),
       col_rarity = Some (get_or (raw_rarity rec) ''''),
       col_artist = Some (get_or (raw_artist rec) ''''),
       col_released_at = Some (get_or (raw_released_at rec) ''''),
       col_image_uri = image_uri,
       col_scryfall_uri = Some (get_or (raw_scryfall_uri rec) ''''),
       col_price_usd = price_of rec ''usd'',
       col_price_eur = price_of rec ''eur'',
       col_price_tix = price_of rec ''tix'',
       col_last_updated = Some stamp \<rparr>"

subsection \<open>\<^verbatim>\<open>process_card_page\<close>\<close>

text \<open>
  Lines 284 to 297: the dependent rows of one record. The keywords are inserted only when
  the list is there and not empty.
\<close>

definition add_dependents :: "tables \<Rightarrow> string \<Rightarrow> raw_card \<Rightarrow> error option \<times> tables" where
  "add_dependents t card_id rec =
     (case (case raw_legalities rec of
              None \<Rightarrow> (None, t)
            | Some ls \<Rightarrow> insert_legalities t card_id ls) of
        (Some e, t') \<Rightarrow> (Some e, t')
      | (None, t') \<Rightarrow>
          (case raw_keywords rec of
             None \<Rightarrow> (None, t')
           | Some ks \<Rightarrow> if ks \<noteq> [] then insert_keywords t' card_id ks else (None, t')))"

text \<open>
  The body of the loop, lines 200 to 297, for one record. Nothing in it catches an
  exception.
\<close>

definition process_card :: "env \<Rightarrow> bool \<Rightarrow> state \<Rightarrow> raw_card \<Rightarrow> error option \<times> state" where
  "process_card ev update_existing s rec =
     (case raw_id rec of
        None \<Rightarrow> (Some (KeyError ''id''), s)
      | Some card_id \<Rightarrow>
          (let existing_card = select_id (conn s) card_id in
           if existing_card \<noteq> None \<and> \<not> update_existing then (None, s)
           else
             (case image_uri_of rec of
                Inl e \<Rightarrow> (Some e, s)
              | Inr image_uri \<Rightarrow>
                  (let row = card_data rec card_id image_uri (now ev (ticks s));
                       s1 = s\<lparr>ticks := Suc (ticks s)\<rparr> in
                   if existing_card \<noteq> None then
                     (let t1 = update_card (conn s1) row;
                          t2 = delete_legalities t1 card_id;
                          t3 = delete_keywords t2 card_id;
                          (r, t4) = add_dependents t3 card_id rec
                      in (r, s1\<lparr>conn := t4\<rparr>))
                   else
                     (case insert_card (conn s1) row of
                        Inl e \<Rightarrow> (Some e, s1)
                      | Inr t1 \<Rightarrow>
                          (let (r, t2) = add_dependents t1 card_id rec
                           in (r, s1\<lparr>conn := t2\<rparr>)))))))"

text \<open>The \<^verbatim>\<open>for\<close> loop over the page: the first exception ends it.\<close>

fun process_cards :: "env \<Rightarrow> bool \<Rightarrow> state \<Rightarrow> raw_card list \<Rightarrow> error option \<times> state" where
  "process_cards ev update_existing s [] = (None, s)"
| "process_cards ev update_existing s (rec # rest) =
     (case process_card ev update_existing s rec of
        (Some e, s') \<Rightarrow> (Some e, s')
      | (None, s') \<Rightarrow> process_cards ev update_existing s' rest)"

definition commit :: "state \<Rightarrow> state" where
  "commit s = s\<lparr>committed := conn s\<rparr>"

text \<open>The page is committed once, after its last record (line 299).\<close>

definition process_card_page :: "env \<Rightarrow> state \<Rightarrow> raw_card list \<Rightarrow> bool \<Rightarrow> error option \<times> state" where
  "process_card_page ev s page_cards update_existing =
     (case process_cards ev update_existing s page_cards of
        (Some e, s') \<Rightarrow> (Some e, s')
      | (None, s') \<Rightarrow> (None, commit s'))"

subsection \<open>\<^verbatim>\<open>fetch_all_cards\<close> and \<^verbatim>\<open>update_database\<close>\<close>

text \<open>\<^verbatim>\<open>requests.get(url)\<close>: the request is noted, the catalogue answers or the call raises.\<close>

definition requests_get :: "env \<Rightarrow> state \<Rightarrow> string \<Rightarrow> (error + response) \<times> state" where
  "requests_get ev s url = (remote ev url, s\<lparr>fetched := fetched s @ [url]\<rparr>)"

text \<open>
  Where a step of a run leaves it: the method is over, with an exception or without, or the
  \<^verbatim>\<open>while\<close> loop goes on with the page just read as \<^verbatim>\<open>data\<close>.
\<close>

datatype outcome =
    Done "error option \<times> state"
  | Continue page state

text \<open>
  \<^verbatim>\<open>data = response.json()\<close> and \<^verbatim>\<open>self.process_card_page(data['data'], ...)\<close>, the same
  in both methods, for the first page (lines 93 to 100, 152 to 159) and for the later ones
  (lines 117 and 118, 173 and 174).
\<close>

definition read_page :: "env \<Rightarrow> bool \<Rightarrow> response \<Rightarrow> state \<Rightarrow> outcome" where
  "read_page ev update_existing response s =
     (case json response of
        None \<Rightarrow> Done (Some JSONDecodeError, s)
      | Some dat \<Rightarrow>
          (case data dat of
             None \<Rightarrow> Done (Some (KeyError ''data''), s)
           | Some page_cards \<Rightarrow>
               (case process_card_page ev s page_cards update_existing of
                  (Some e, s1) \<Rightarrow> Done (Some e, s1)
                | (None, s1) \<Rightarrow> Continue dat s1)))"

text \<open>
  One turn of \<^verbatim>\<open>while data.get('has_more', False)\<close>, the same text in both methods (lines
  105 to 120 and 164 to 176). A status other than 200 leaves the loop (\<^verbatim>\<open>break\<close>), and
  the method returns.
\<close>

definition fetch_step :: "env \<Rightarrow> bool \<Rightarrow> page \<Rightarrow> state \<Rightarrow> outcome" where
  "fetch_step ev update_existing dat s =
     (if get_or (has_more dat) False then
        (case next_page dat of
           None \<Rightarrow> Done (Some (KeyError ''next_page''), s)
         | Some next_page_url \<Rightarrow>
             (case requests_get ev s next_page_url of
                (Inl e, s1) \<Rightarrow> Done (Some e, s1)
              | (Inr response, s1) \<Rightarrow>
                  if status_code response \<noteq> 200 then Done (None, s1)
                  else read_page ev update_existing response s1))
      else Done (None, s))"

text \<open>
  The loop follows \<^verbatim>\<open>next_page\<close> for as long as the catalogue says there is more, so it
  need not end: the result \<open>None\<close> is a run that never returns.
\<close>

partial_function (option) fetch_more ::
  "env \<Rightarrow> bool \<Rightarrow> page \<Rightarrow> state \<Rightarrow> (error option \<times> state) option" where
  "fetch_more ev update_existing dat s =
     (case fetch_step ev update_existing dat s of
        Done r \<Rightarrow> Some r
      | Continue dat' s' \<Rightarrow> fetch_more ev update_existing dat' s')"

text \<open>What both methods do with the answer to their first request, once its status is 200.\<close>

definition process_pages ::
  "env \<Rightarrow> bool \<Rightarrow> response \<Rightarrow> state \<Rightarrow> (error option \<times> state) option" where
  "process_pages ev update_existing response s =
     (case read_page ev update_existing response s of
        Done r \<Rightarrow> Some r
      | Continue dat s1 \<Rightarrow> fetch_more ev update_existing dat s1)"

definition fetch_all_cards :: "env \<Rightarrow> bool \<Rightarrow> state \<Rightarrow> (error option \<times> state) option" where
  "fetch_all_cards ev update_existing s =
     (case requests_get ev s (api_base_url @ ''/cards'') of
        (Inl e, s1) \<Rightarrow> Some (Some e, s1)
      | (Inr response, s1) \<Rightarrow>
          if status_code response \<noteq> 200 then Some (None, s1)
          else process_pages ev update_existing response s1)"

text \<open>
  \<^verbatim>\<open>SELECT MAX(released_at) FROM cards\<close>: NULL for a table with no row, or with no row
  whose date is not NULL. SQLite compares text byte by byte, which is the order of
  \<open>string\<close>.
\<close>

definition max_released_at :: "tables \<Rightarrow> string option" where
  "max_released_at t =
     fold (\<lambda>r acc. case col_released_at r of
                       None \<Rightarrow> acc
                     | Some d \<Rightarrow> (case acc of None \<Rightarrow> Some d | Some m \<Rightarrow> Some (max m d)))
          (cards_table t) None"

text \<open>Line 132: \<^verbatim>\<open>result[0] if result[0] else "2000-01-01"\<close>; an empty text is falsy.\<close>

definition last_update_date :: "tables \<Rightarrow> string" where
  "last_update_date t =
     (case max_released_at t of
        None \<Rightarrow> ''2000-01-01''
      | Some d \<Rightarrow> if d \<noteq> [] then d else ''2000-01-01'')"

definition search_url :: "string \<Rightarrow> string" where
  "search_url last_update = api_base_url @ ''/cards/search?q='' @ (''date>'' @ last_update)"

text \<open>The block under \<^verbatim>\<open>try\<close>, lines 141 to 178.\<close>

definition update_body :: "env \<Rightarrow> state \<Rightarrow> string \<Rightarrow> (error option \<times> state) option" where
  "update_body ev s url =
     (case requests_get ev s url of
        (Inl e, s1) \<Rightarrow> Some (Some e, s1)
      | (Inr response, s1) \<Rightarrow>
          if status_code response = 404 then Some (None, s1)
          else if status_code response \<noteq> 200 then Some (None, s1)
          else process_pages ev True response s1)"

text \<open>
  \<^verbatim>\<open>update_database\<close>: whatever the block raises is caught by
  \<^verbatim>\<open>except Exception\<close> (lines 180 and 181), printed, and the method returns.
\<close>

definition update_database :: "env \<Rightarrow> state \<Rightarrow> (error option \<times> state) option" where
  "update_database ev s =
     (case update_body ev s (search_url (last_update_date (conn s))) of
        None \<Rightarrow> None
      | Some (Some e, s') \<Rightarrow> Some (None, s')
      | Some (None, s') \<Rightarrow> Some (None, s'))"

subsection \<open>The LIKE operator of SQLite\<close>

text \<open>
  \<^verbatim>\<open>search_cards\<close> and \<^verbatim>\<open>get_stats\<close> match text with LIKE. In the pattern \<^verbatim>\<open>%\<close>
  stands for any run of characters and \<^verbatim>\<open>_\<close> for one character; any other character
  matches itself, the ASCII letters without regard to case. SQLite holds text in UTF-8 and
  steps over one character at a time: a leading byte from 0xC0 on together with the
  continuation bytes (0x80 to 0xBF) behind it.
\<close>

definition ascii_lower :: "char \<Rightarrow> char" where
  "ascii_lower c =
     (if 65 \<le> (of_char c :: nat) \<and> (of_char c :: nat) \<le> 90
      then char_of ((of_char c :: nat) + 32) else c)"

definition utf8_continuation :: "char \<Rightarrow> bool" where
  "utf8_continuation c \<longleftrightarrow> 128 \<le> (of_char c :: nat) \<and> (of_char c :: nat) < 192"

fun utf8_skip :: "string \<Rightarrow> string" where
  "utf8_skip [] = []"
| "utf8_skip (c # cs) =
     (if 192 \<le> (of_char c :: nat) then dropWhile utf8_continuation cs else cs)"

function sql_like :: "string \<Rightarrow> string \<Rightarrow> bool" where
  "sql_like [] s = (s = [])"
| "sql_like (p # ps) s =
     (if p = CHR ''%'' then
        (if sql_like ps s then True
         else if s = [] then False
         else sql_like (p # ps) (utf8_skip s))
      else if p = CHR ''_'' then
        (if s = [] then False else sql_like ps (utf8_skip s))
      else
        (case s of
           [] \<Rightarrow> False
         | c # cs \<Rightarrow> if ascii_lower p = ascii_lower c then sql_like ps cs else False))"
  by pat_completeness auto
termination
proof -
  have skip: "length (utf8_skip s) < length s" if "s \<noteq> []" for s
    using that by (cases s) (auto simp: less_Suc_eq_le length_dropWhile_le)
  show ?thesis
    by (relation "measure (\<lambda>(p, s). length p + length s)")
       (auto simp: skip less_SucI)
qed

text \<open>\<^verbatim>\<open>column LIKE ?\<close> on a column that may be NULL: NULL never satisfies the WHERE clause.\<close>

definition column_like :: "string option \<Rightarrow> string \<Rightarrow> bool" where
  "column_like v pat = (case v of None \<Rightarrow> False | Some text \<Rightarrow> sql_like pat text)"

subsection \<open>\<^verbatim>\<open>search_cards\<close>\<close>

record search_result =
  res_id :: string
  res_name :: string
  res_oracle_text :: "string option"
  res_mana_cost :: "string option"
  res_type_line :: "string option"

text \<open>\<^verbatim>\<open>LIMIT ?\<close>: a negative limit is no limit.\<close>

definition sql_limit :: "int \<Rightarrow> 'a list \<Rightarrow> 'a list" where
  "sql_limit n rows = (if n < 0 then rows else take (nat n) rows)"

definition search_cards :: "tables \<Rightarrow> string \<Rightarrow> int \<Rightarrow> search_result list" where
  "search_cards t query limit =
     (let search_pattern = ''%'' @ query @ ''%'' in
      map (\<lambda>r. \<lparr> res_id = col_id r, res_name = col_name r,
                  res_oracle_text = col_oracle_text r, res_mana_cost = col_mana_cost r,
                  res_type_line = col_type_line r \<rparr>)
        (sql_limit limit
           (filter (\<lambda>r. sql_like search_pattern (col_name r)
                         \<or> column_like (col_oracle_text r) search_pattern
                         \<or> column_like (col_type_line r) search_pattern)
              (cards_table t))))"

subsection \<open>\<^verbatim>\<open>get_stats\<close>\<close>

text \<open>The first CASE expression (lines 394 to 402): an exact comparison with six encodings.\<close>

definition color_group :: "string option \<Rightarrow> string" where
  "color_group color_identity =
     (if color_identity = Some ''[]'' then ''Colorless''
      else if color_identity = Some (''['' @ [CHR 0x22] @ ''W'' @ [CHR 0x22] @ '']'') then ''White''
      else if color_identity = Some (''['' @ [CHR 0x22] @ ''U'' @ [CHR 0x22] @ '']'') then ''Blue''
      else if color_identity = Some (''['' @ [CHR 0x22] @ ''B'' @ [CHR 0x22] @ '']'') then ''Black''
      else if color_identity = Some (''['' @ [CHR 0x22] @ ''R'' @ [CHR 0x22] @ '']'') then ''Red''
      else if color_identity = Some (''['' @ [CHR 0x22] @ ''G'' @ [CHR 0x22] @ '']'') then ''Green''
      else ''Multicolor'')"

text \<open>The second CASE expression (lines 413 to 422): the first LIKE that holds decides.\<close>

definition type_group :: "string option \<Rightarrow> string" where
  "type_group type_line =
     (if column_like type_line ''%Creature%'' then ''Creature''
      else if column_like type_line ''%Planeswalker%'' then ''Planeswalker''
      else if column_like type_line ''%Instant%'' then ''Instant''
      else if column_like type_line ''%Sorcery%'' then ''Sorcery''
      else if column_like type_line ''%Enchantment%'' then ''Enchantment''
      else if column_like type_line ''%Artifact%'' then ''Artifact''
      else if column_like type_line ''%Land%'' then ''Land''
      else ''Other'')"

text \<open>
  \<^verbatim>\<open>SELECT g, COUNT(*) ... GROUP BY g\<close> read into a dictionary: a group is a key when some
  row falls into it, and its value is the number of those rows.
\<close>

definition group_count :: "(card_row \<Rightarrow> string) \<Rightarrow> card_row list \<Rightarrow> string \<Rightarrow> nat option" where
  "group_count g rows k =
     (let n = length (filter (\<lambda>r. g r = k) rows) in if n = 0 then None else Some n)"

definition max_last_updated :: "tables \<Rightarrow> string option" where
  "max_last_updated t =
     fold (\<lambda>r acc. case col_last_updated r of
                       None \<Rightarrow> acc
                     | Some d \<Rightarrow> (case acc of None \<Rightarrow> Some d | Some m \<Rightarrow> Some (max m d)))
          (cards_table t) None"

record stats =
  stats_total_cards :: nat
  stats_colors :: "string \<Rightarrow> nat option"
  stats_types :: "string \<Rightarrow> nat option"
  stats_last_updated :: "string option"

definition get_stats :: "tables \<Rightarrow> stats" where
  "get_stats t =
     \<lparr> stats_total_cards = length (cards_table t),
       stats_colors = group_count (\<lambda>r. color_group (col_color_identity r)) (cards_table t),
       stats_types = group_count (\<lambda>r. type_group (col_type_line r)) (cards_table t),
       stats_last_updated = max_last_updated t \<rparr>"

subsection \<open>Inputs for the examples\<close>

text \<open>A record with no key at all, a store with no row, and a database just created.\<close>

definition blank_card :: raw_card where
  "blank_card =
     \<lparr> raw_id = None, raw_name = None, raw_oracle_text = None, raw_card_faces = None,
       raw_mana_cost = None, raw_cmc = None, raw_type_line = None, raw_power = None,
       raw_toughness = None, raw_loyalty = None, raw_colors = None, raw_color_identity = None,
       raw_set = None, raw_set_name = None, raw_rarity = None, raw_artist = None,
       raw_released_at = None, raw_image_uris = None, raw_scryfall_uri = None,
       raw_prices = None, raw_legalities = None, raw_keywords = None \<rparr>"

definition empty_tables :: tables where
  "empty_tables = \<lparr> cards_table = [], legalities_table = [], keywords_table = [] \<rparr>"

definition new_database :: state where
  "new_database = \<lparr> conn = empty_tables, committed = empty_tables, ticks = 0, fetched = [] \<rparr>"

definition two_faced :: raw_card where
  "two_faced =
     blank_card\<lparr> raw_id := Some ''c1'',
       raw_card_faces := Some [\<lparr> face_oracle_text = Some ''A'', face_image_uris = None \<rparr>,
                               \<lparr> face_oracle_text = Some ''B'', face_image_uris = None \<rparr>] \<rparr>"

definition no_faces :: raw_card where
  "no_faces = blank_card\<lparr> raw_id := Some ''c1'', raw_card_faces := Some [] \<rparr>"

definition not_found :: response where
  "not_found = \<lparr> status_code = 404, json = None \<rparr>"

definition no_catalogue :: env where
  "no_catalogue = \<lparr> remote = (\<lambda>url. Inr not_found), now = (\<lambda>n. ''2026-01-01T00:00:00'') \<rparr>"

subsection \<open>Notions used in the statements\<close>

text \<open>The dependent rows that a record asks for, and the rows a table holds for one card.\<close>

definition legality_rows :: "string \<Rightarrow> (string \<times> string) list \<Rightarrow> legality_row list" where
  "legality_rows c ls = map (\<lambda>(f, st). (c, f, st)) ls"

definition keyword_rows :: "string \<Rightarrow> string list \<Rightarrow> keyword_row list" where
  "keyword_rows c ks = map (Pair c) ks"



text \<open>A card legal in two formats, stored, and the same card after it left one of them.\<close>

definition both_formats :: raw_card where
  "both_formats =
     blank_card\<lparr> raw_id := Some ''c1'',
       raw_legalities := Some [(''standard'', ''legal''), (''modern'', ''legal'')] \<rparr>"

definition only_modern :: raw_card where
  "only_modern =
     blank_card\<lparr> raw_id := Some ''c1'', raw_legalities := Some [(''modern'', ''legal'')] \<rparr>"


text \<open>A record that names one keyword twice, and a catalogue that sends it for every request.\<close>

definition twice_flying :: raw_card where
  "twice_flying = blank_card\<lparr> raw_id := Some ''c1'', raw_keywords := Some [''Flying'', ''Flying''] \<rparr>"

definition flying_page :: response where
  "flying_page = \<lparr> status_code = 200,
     json = Some \<lparr> data = Some [twice_flying], has_more = Some False, next_page = None \<rparr> \<rparr>"

definition flying_catalogue :: env where
  "flying_catalogue = \<lparr> remote = (\<lambda>url. Inr flying_page), now = (\<lambda>n. ''2026-01-01T00:00:00'') \<rparr>"

definition keyword_conflict :: error where
  "keyword_conflict = IntegrityError ''UNIQUE constraint failed: keywords.card_id, keywords.keyword''"

text \<open>
  The dates that \<^verbatim>\<open>MAX(released_at)\<close> ranges over (NULL is skipped), the watermark in
  the words of the specification, and two stores: one whose only card came without a date,
  one with the two dates of the example.
\<close>

definition released_dates :: "tables \<Rightarrow> string list" where
  "released_dates t = List.map_filter col_released_at (cards_table t)"

definition watermark_spec :: "tables \<Rightarrow> string" where
  "watermark_spec t =
     (if released_dates t = [] then ''2000-01-01'' else Max (set (released_dates t)))"

definition undated_store :: tables where
  "undated_store = conn (snd (process_card_page no_catalogue new_database [two_faced] True))"

definition dated_store :: state where
  "dated_store =
     snd (process_card_page no_catalogue new_database
       [blank_card\<lparr> raw_id := Some ''c1'', raw_released_at := Some ''2020-01-01'' \<rparr>,
        blank_card\<lparr> raw_id := Some ''c2'', raw_released_at := Some ''2023-05-05'' \<rparr>] True)"

text \<open>
  For the statistics: the words of the second CASE expression in its order, the words that
  LIKE finds as they stand (no wildcard in them, and a first byte that begins a character),
  the six encodings of the first CASE expression with their groups, a type line, and a
  store with one blue artifact creature.
\<close>

definition type_words :: "string list" where
  "type_words =
     [''Creature'', ''Planeswalker'', ''Instant'', ''Sorcery'', ''Enchantment'', ''Artifact'',
      ''Land'']"

definition plain_word :: "string \<Rightarrow> bool" where
  "plain_word w \<longleftrightarrow>
     w \<noteq> [] \<and> CHR ''%'' \<notin> set w \<and> CHR ''_'' \<notin> set w \<and> \<not> utf8_continuation (hd w)"

definition color_names :: "(string list \<times> string) list" where
  "color_names =
     [([], ''Colorless''), ([''W''], ''White''), ([''U''], ''Blue''), ([''B''], ''Black''),
      ([''R''], ''Red''), ([''G''], ''Green'')]"

definition golem_line :: string where
  "golem_line = ''Artifact Creature '' @ [CHR 0xE2, CHR 0x80, CHR 0x94] @ '' Golem''"

definition golem_store :: tables where
  "golem_store =
     conn (snd (process_card_page no_catalogue new_database
       [blank_card\<lparr> raw_id := Some ''c1'', raw_type_line := Some golem_line,
          raw_color_identity := Some [''U''] \<rparr>] True))"

text \<open>
  For the full run: the rows of \<^verbatim>\<open>cards\<close> without their time stamp, the primary keys of
  the two dependent tables, and a catalogue of two pages under a clock that moves. The card
  of the first page comes again on the second, with fewer formats.
\<close>

definition strip_stamp :: "card_row \<Rightarrow> card_row" where
  "strip_stamp row = row\<lparr>col_last_updated := None\<rparr>"

definition keys_distinct :: "tables \<Rightarrow> bool" where
  "keys_distinct t \<longleftrightarrow>
     distinct (map legality_key (legalities_table t)) \<and> distinct (keywords_table t)"

definition page_one :: response where
  "page_one =
     \<lparr> status_code = 200,
       json = Some \<lparr> data = Some [both_formats, blank_card\<lparr> raw_id := Some ''c2'' \<rparr>],
                     has_more = Some True,
                     next_page = Some ''https://api.scryfall.com/cards?page=2'' \<rparr> \<rparr>"

definition page_two :: response where
  "page_two =
     \<lparr> status_code = 200,
       json = Some \<lparr> data = Some [only_modern], has_more = Some False, next_page = None \<rparr> \<rparr>"

definition ticking_catalogue :: env where
  "ticking_catalogue =
     \<lparr> remote = (\<lambda>url. if url = ''https://api.scryfall.com/cards'' then Inr page_one
                       else if url = ''https://api.scryfall.com/cards?page=2'' then Inr page_two
                       else Inr not_found),
       now = (\<lambda>n. ''2026-01-01T00:00:0'' @ [hex_digit n]) \<rparr>"

definition first_sync :: state where
  "first_sync = snd (the (fetch_all_cards ticking_catalogue True new_database))"

definition second_sync :: state where
  "second_sync = snd (the (fetch_all_cards ticking_catalogue True first_sync))"

text \<open>
  Notions of the proofs: the part of the state that the loop body reads and writes, the
  first request as a page that points to it, the ids stored, the records that the loop body
  takes without a failure once their card is stored (an id, an image that is found without
  indexing an empty list of faces, no format and no keyword named twice), the last record
  of a run for an id, and the row it leaves.
\<close>

definition core :: "state \<Rightarrow> tables \<times> nat" where
  "core s = (conn s, ticks s)"

definition first_page :: page where
  "first_page = \<lparr> data = None, has_more = Some True, next_page = Some (api_base_url @ ''/cards'') \<rparr>"

definition card_ids :: "tables \<Rightarrow> string set" where
  "card_ids t = col_id ` set (cards_table t)"

definition rec_ok :: "raw_card \<Rightarrow> bool" where
  "rec_ok rec \<longleftrightarrow>
     raw_id rec \<noteq> None \<and> \<not> isl (image_uri_of rec) \<and>
     distinct (map fst (get_or (raw_legalities rec) [])) \<and>
     distinct (get_or (raw_keywords rec) [])"

definition last_for :: "raw_card list \<Rightarrow> string \<Rightarrow> raw_card option" where
  "last_for R c = find (\<lambda>rec. raw_id rec = Some c) (rev R)"

definition normalized :: "raw_card \<Rightarrow> card_row" where
  "normalized rec =
     strip_stamp (card_data rec (the (raw_id rec)) (projr (image_uri_of rec)) [])"

definition refresh :: "raw_card list \<Rightarrow> card_row list \<Rightarrow> card_row list" where
  "refresh R rows =
     map (\<lambda>row. case last_for R (col_id row) of
                  None \<Rightarrow> strip_stamp row
                | Some rec \<Rightarrow> normalized rec) rows"

text \<open>
  For the search: the five columns that \<^verbatim>\<open>search_cards\<close> selects; a word that occurs in a
  text, the ASCII letters compared without regard to case; a word that occurs in a text with
  the rest of the text behind it satisfying a condition; the same for a column that may be
  NULL; and a store of three cards, one to be found by its name, one by its text and one by
  its type line.
\<close>

definition summary :: "card_row \<Rightarrow> search_result" where
  "summary r =
     \<lparr> res_id = col_id r, res_name = col_name r, res_oracle_text = col_oracle_text r,
       res_mana_cost = col_mana_cost r, res_type_line = col_type_line r \<rparr>"

definition occurs :: "string \<Rightarrow> string \<Rightarrow> bool" where
  "occurs w s \<longleftrightarrow> sublist (map ascii_lower w) (map ascii_lower s)"

definition occurs_then :: "string \<Rightarrow> (string \<Rightarrow> bool) \<Rightarrow> string \<Rightarrow> bool" where
  "occurs_then a P s \<longleftrightarrow>
     list_ex (\<lambda>i. prefix (map ascii_lower a) (map ascii_lower (drop i s)) \<and>
                   P (drop (i + length a) s))
       [0..<Suc (length s)]"

definition one_character_then :: "string \<Rightarrow> string \<Rightarrow> bool" where
  "one_character_then b s \<longleftrightarrow>
     s \<noteq> [] \<and> prefix (map ascii_lower b) (map ascii_lower (utf8_skip s))"

definition in_fields :: "(string \<Rightarrow> bool) \<Rightarrow> card_row \<Rightarrow> bool" where
  "in_fields P r \<longleftrightarrow>
     P (col_name r) \<or>
     (case col_oracle_text r of None \<Rightarrow> False | Some s \<Rightarrow> P s) \<or>
     (case col_type_line r of None \<Rightarrow> False | Some s \<Rightarrow> P s)"

definition small_store :: tables where
  "small_store =
     conn (snd (process_card_page no_catalogue new_database
       [blank_card\<lparr> raw_id := Some ''c1'', raw_name := Some ''Dragon'' \<rparr>,
        blank_card\<lparr> raw_id := Some ''c2'', raw_name := Some ''Shock'',
          raw_oracle_text := Some ''Deals 2 damage'' \<rparr>,
        blank_card\<lparr> raw_id := Some ''c3'', raw_name := Some ''Forest'',
          raw_type_line := Some ''Basic Land'' \<rparr>] True))"




section \<open>Properties\<close>

declare fetch_more.simps [code]

subsection \<open>The statements of one upsert\<close>

lemma col_id_card_data [simp]: "col_id (card_data rec card_id image_uri stamp) = card_id"
  by (simp add: card_data_def)

lemma select_id_in: "c \<in> col_id ` set (cards_table t) \<Longrightarrow> select_id t c = Some c"
  by (cases "find (\<lambda>r. col_id r = c) (cards_table t)")
     (auto simp: select_id_def find_None_iff find_Some_iff)

lemma select_id_notin: "c \<notin> col_id ` set (cards_table t) \<Longrightarrow> select_id t c = None"
  by (auto simp: select_id_def find_None_iff)



lemma insert_legalities_frame:
  "insert_legalities t c ls = (r, t') \<Longrightarrow>
     cards_table t' = cards_table t \<and> keywords_table t' = keywords_table t"
  by (induction t c ls rule: insert_legalities.induct)
     (auto simp: insert_legality_def split: if_splits)

lemma insert_keywords_frame:
  "insert_keywords t c ks = (r, t') \<Longrightarrow>
     cards_table t' = cards_table t \<and> legalities_table t' = legalities_table t"
  by (induction t c ks rule: insert_keywords.induct)
     (auto simp: insert_keyword_def split: if_splits)

lemma add_dependents_cards:
  "add_dependents t c rec = (r, t') \<Longrightarrow> cards_table t' = cards_table t"
  unfolding add_dependents_def
  by (auto split: option.splits prod.splits if_splits
      dest!: insert_legalities_frame insert_keywords_frame)


subsection \<open>The five ways through the loop body\<close>

lemma process_card_no_id:
  "raw_id rec = None \<Longrightarrow> process_card ev upd s rec = (Some (KeyError ''id''), s)"
  by (simp add: process_card_def)

lemma process_card_skip:
  "raw_id rec = Some cid \<Longrightarrow> cid \<in> col_id ` set (cards_table (conn s)) \<Longrightarrow> \<not> upd
   \<Longrightarrow> process_card ev upd s rec = (None, s)"
  by (simp add: process_card_def select_id_in)

lemma process_card_image_error:
  "raw_id rec = Some cid \<Longrightarrow> upd \<or> cid \<notin> col_id ` set (cards_table (conn s))
   \<Longrightarrow> image_uri_of rec = Inl e
   \<Longrightarrow> process_card ev upd s rec = (Some e, s)"
  by (auto simp add: process_card_def select_id_in select_id_notin)

lemma process_card_update:
  "raw_id rec = Some cid \<Longrightarrow> cid \<in> col_id ` set (cards_table (conn s)) \<Longrightarrow> upd
   \<Longrightarrow> image_uri_of rec = Inr img
   \<Longrightarrow> process_card ev upd s rec =
       (case add_dependents
          (delete_keywords (delete_legalities
             (update_card (conn s) (card_data rec cid img (now ev (ticks s)))) cid) cid) cid rec of
          (r, t) \<Rightarrow> (r, s\<lparr>ticks := Suc (ticks s), conn := t\<rparr>))"
  by (auto simp add: process_card_def select_id_in Let_def split: prod.splits)

lemma process_card_insert:
  "raw_id rec = Some cid \<Longrightarrow> cid \<notin> col_id ` set (cards_table (conn s))
   \<Longrightarrow> image_uri_of rec = Inr img
   \<Longrightarrow> process_card ev upd s rec =
       (case add_dependents
          ((conn s)\<lparr>cards_table := cards_table (conn s) @ [card_data rec cid img (now ev (ticks s))]\<rparr>)
          cid rec of
          (r, t) \<Rightarrow> (r, s\<lparr>ticks := Suc (ticks s), conn := t\<rparr>))"
  by (auto simp add: process_card_def select_id_notin insert_card_def Let_def split: prod.splits)

text \<open>Every outcome of the loop body is one of the five.\<close>

lemma process_card_cases:
  obtains (no_id) "raw_id rec = None"
  | (skip) cid where "raw_id rec = Some cid" "cid \<in> col_id ` set (cards_table (conn s))" "\<not> upd"
  | (image_error) cid e where "raw_id rec = Some cid"
      "upd \<or> cid \<notin> col_id ` set (cards_table (conn s))" "image_uri_of rec = Inl e"
  | (update) cid img where "raw_id rec = Some cid" "cid \<in> col_id ` set (cards_table (conn s))"
      "upd" "image_uri_of rec = Inr img"
  | (insert) cid img where "raw_id rec = Some cid" "cid \<notin> col_id ` set (cards_table (conn s))"
      "image_uri_of rec = Inr img"
  by (cases "raw_id rec"; cases "image_uri_of rec"; cases upd;
      cases "the (raw_id rec) \<in> col_id ` set (cards_table (conn s))") auto

lemma process_card_committed:
  "process_card ev upd s rec = (r, s') \<Longrightarrow> committed s' = committed s \<and> fetched s' = fetched s"
  by (rule process_card_cases[where rec=rec and s=s and upd=upd])
     (auto simp: process_card_no_id process_card_skip process_card_image_error
        process_card_update process_card_insert split: prod.splits)

lemma process_cards_committed:
  "process_cards ev upd s recs = (r, s') \<Longrightarrow> committed s' = committed s \<and> fetched s' = fetched s"
proof (induction recs arbitrary: s)
  case Nil
  then show ?case by simp
next
  case (Cons rec recs)
  then show ?case
    by (auto split: prod.splits option.splits dest!: process_card_committed)
qed

subsection \<open>Normalisation\<close>




text \<open>
  The image of a record is its own normal-size image when it has one, and otherwise what
  the first face offers; no face behind the first is read. Only an empty list of faces
  makes the computation fail.
\<close>

lemma image_uri_first_face:
  "raw_card_faces rec = Some (f # fs) \<Longrightarrow>
     image_uri_of rec = image_uri_of (rec\<lparr>raw_card_faces := Some [f]\<rparr>)"
  by (simp add: image_uri_of_def split: option.splits)

lemma image_uri_defined:
  "raw_card_faces rec \<noteq> Some [] \<or> (\<exists>u. raw_image_uris rec = Some u \<and> map_of u ''normal'' \<noteq> None)
     \<Longrightarrow> \<exists>image_uri. image_uri_of rec = Inr image_uri"
  by (auto simp: image_uri_of_def split: option.splits list.splits)

text \<open>
  C6: a record with no image of its own and an empty list of faces has no first face to
  fall back on; the image is then not NULL, as the rule has it: reading the first face
  raises \<^verbatim>\<open>IndexError\<close>, and the page that holds the record is given up.
\<close>

theorem image_uri_no_faces:
  "image_uri_of no_faces = Inl IndexError \<and>
   process_card_page ev s [no_faces] True = (Some IndexError, s)"
  by (simp add: image_uri_of_def no_faces_def blank_card_def process_card_page_def
      process_card_def)

subsection \<open>The incremental run\<close>

text \<open>
  C8: when the catalogue answers the first query of \<^verbatim>\<open>update_database\<close> with status 404,
  the run returns normally, no record is processed and no table changes, neither in the
  open connection nor on disk; only the request is noted.
\<close>

theorem update_database_not_found:
  assumes "remote ev (search_url (last_update_date (conn s))) = Inr response"
    and "status_code response = 404"
  shows "update_database ev s =
     Some (None, s\<lparr>fetched := fetched s @ [search_url (last_update_date (conn s))]\<rparr>)"
  using assms by (simp add: update_database_def update_body_def requests_get_def)

theorem update_database_not_found_witness:
  "remote no_catalogue (search_url (last_update_date (conn new_database))) = Inr not_found \<and>
   status_code not_found = 404 \<and>
   update_database no_catalogue new_database =
     Some (None, new_database
       \<lparr>fetched := [''https://api.scryfall.com/cards/search?q=date>2000-01-01'']\<rparr>)"
proof -
  have h1: "remote no_catalogue (search_url (last_update_date (conn new_database))) = Inr not_found"
    by (simp add: no_catalogue_def)
  have h2: "status_code not_found = 404"
    by (simp add: not_found_def)
  have url: "search_url (last_update_date (conn new_database)) =
      ''https://api.scryfall.com/cards/search?q=date>2000-01-01''"
    by (simp add: search_url_def last_update_date_def max_released_at_def new_database_def
        empty_tables_def api_base_url_def)
  have f: "fetched new_database = []"
    by (simp add: new_database_def)
  show ?thesis
    using update_database_not_found [OF h1 h2] h1 h2 by (simp add: url f)
qed

subsection \<open>One upsert\<close>

lemma fst_legality_rows [simp]: "fst ` set (legality_rows c ls) \<subseteq> {c}"
  by (auto simp: legality_rows_def)

lemma filter_legality_rows [simp]:
  "filter (\<lambda>row. fst row = c) (legality_rows c ls) = legality_rows c ls"
  "filter (\<lambda>row. fst row = c') (legality_rows c ls) = (if c' = c then legality_rows c ls else [])"
  by (auto simp: legality_rows_def filter_empty_conv intro!: filter_True)

lemma filter_keyword_rows [simp]:
  "filter (\<lambda>row. fst row = c) (keyword_rows c ks) = keyword_rows c ks"
  "filter (\<lambda>row. fst row = c') (keyword_rows c ks) = (if c' = c then keyword_rows c ks else [])"
  by (auto simp: keyword_rows_def filter_empty_conv intro!: filter_True)



subsection \<open>Failures\<close>

lemma process_cards_append:
  "process_cards ev upd s (xs @ ys) =
     (case process_cards ev upd s xs of
        (Some e, s') \<Rightarrow> (Some e, s')
      | (None, s') \<Rightarrow> process_cards ev upd s' ys)"
  by (induction xs arbitrary: s) (auto split: prod.splits option.splits)

text \<open>
  A page whose first record has no id: the exception ends the page, and the record behind
  it, which is stored when it stands alone, is not.
\<close>

theorem failure_skips_later_records_counterexample:
  "fst (process_card_page no_catalogue new_database [blank_card, two_faced] True) = Some (KeyError ''id'') \<and>
   cards_table (conn (snd (process_card_page no_catalogue new_database [blank_card, two_faced] True))) = [] \<and>
   map col_id (cards_table (conn (snd (process_card_page no_catalogue new_database [two_faced] True)))) = [''c1'']"
  by code_simp

text \<open>
  C3, as the code has it: the loop over a page catches nothing. When a record raises, after
  the records before it went through, \<^verbatim>\<open>process_card_page\<close> raises the same exception
  with the state reached at that point, whatever records follow: none of them is processed,
  and nothing of the page is committed.
\<close>

theorem failure_ends_page:
  assumes "process_cards ev upd s before = (None, s1)"
    and "process_card ev upd s1 rec = (Some e, s2)"
  shows "process_card_page ev s (before @ rec # later) upd = (Some e, s2) \<and>
         committed s2 = committed s"
  using assms process_cards_committed [OF assms(1)] process_card_committed [OF assms(2)]
  by (simp add: process_card_page_def process_cards_append)

theorem failure_ends_page_witness:
  "process_cards no_catalogue True new_database [two_faced] =
      (None, snd (process_cards no_catalogue True new_database [two_faced])) \<and>
   process_card no_catalogue True (snd (process_cards no_catalogue True new_database [two_faced])) no_faces =
      (Some IndexError, snd (process_cards no_catalogue True new_database [two_faced])) \<and>
   process_card_page no_catalogue new_database ([two_faced] @ no_faces # [only_modern]) True =
      (Some IndexError, snd (process_cards no_catalogue True new_database [two_faced])) \<and>
   committed (snd (process_cards no_catalogue True new_database [two_faced])) = committed new_database"
proof -
  have h1: "process_cards no_catalogue True new_database [two_faced] =
      (None, snd (process_cards no_catalogue True new_database [two_faced]))"
    by code_simp
  have h2: "process_card no_catalogue True (snd (process_cards no_catalogue True new_database [two_faced])) no_faces =
      (Some IndexError, snd (process_cards no_catalogue True new_database [two_faced]))"
    by code_simp
  show ?thesis
    using failure_ends_page [OF h1 h2, of "[only_modern]"] h1 h2 by simp
qed

text \<open>
  The page of the incremental run holds a record that violates the primary key of
  \<^verbatim>\<open>keywords\<close>: processing it raises the storage failure, and \<^verbatim>\<open>update_database\<close>
  returns normally all the same.
\<close>

theorem update_swallows_storage_failure_counterexample:
  "fst (process_card_page flying_catalogue
          (new_database\<lparr>fetched := [search_url (last_update_date (conn new_database))]\<rparr>)
          [twice_flying] True) = Some keyword_conflict \<and>
   storage_error keyword_conflict \<and>
   map_option fst (update_database flying_catalogue new_database) = Some None"
  by code_simp

text \<open>
  C4, as the code has it: a storage failure raised while a page is processed is passed on by
  \<^verbatim>\<open>fetch_all_cards\<close>, for its first page and for every later page of the loop;
  \<^verbatim>\<open>update_database\<close> catches it and returns normally, as it does with every exception
  of its \<^verbatim>\<open>try\<close> block.
\<close>

theorem storage_failure_propagation:
  assumes "remote ev url = Inr response"
    and "status_code response = 200"
    and "json response = Some dat"
    and "data dat = Some page_cards"
    and "process_card_page ev (s\<lparr>fetched := fetched s @ [url]\<rparr>) page_cards upd = (Some e, s')"
    and "storage_error e"
  shows "(url = api_base_url @ ''/cards'' \<longrightarrow> fetch_all_cards ev upd s = Some (Some e, s')) \<and>
         (get_or (has_more cur) False \<and> next_page cur = Some url \<longrightarrow>
            fetch_more ev upd cur s = Some (Some e, s')) \<and>
         (url = search_url (last_update_date (conn s)) \<and> upd \<longrightarrow>
            update_database ev s = Some (None, s')) \<and>
         (\<forall>y. update_database ev s0 = Some y \<longrightarrow> fst y = None)"
proof -
  have page: "read_page ev upd response (s\<lparr>fetched := fetched s @ [url]\<rparr>) = Done (Some e, s')"
    using assms by (simp add: read_page_def)
  have 1: "fetch_all_cards ev upd s = Some (Some e, s')" if "url = api_base_url @ ''/cards''"
    using that assms(1,2) page
    by (simp add: fetch_all_cards_def requests_get_def process_pages_def)
  have 2: "fetch_more ev upd cur s = Some (Some e, s')"
    if "get_or (has_more cur) False" "next_page cur = Some url"
    using that assms(1,2) page
    by (subst fetch_more.simps) (simp add: fetch_step_def requests_get_def)
  have 3: "update_database ev s = Some (None, s')"
    if "url = search_url (last_update_date (conn s))" upd
    using that assms(1,2) page
    by (simp add: update_database_def update_body_def requests_get_def process_pages_def)
  have 4: "fst y = None" if "update_database ev s0 = Some y" for y
    using that by (auto simp: update_database_def split: option.splits prod.splits)
  from 1 2 3 4 show ?thesis by blast
qed


theorem storage_failure_propagation_witness:
  "remote flying_catalogue (api_base_url @ ''/cards'') = Inr flying_page \<and>
   status_code flying_page = 200 \<and>
   storage_error keyword_conflict \<and>
   map_option fst (fetch_all_cards flying_catalogue True new_database) = Some (Some keyword_conflict) \<and>
   map_option fst (update_database flying_catalogue new_database) = Some None"
proof -
  define dat where "dat = \<lparr> data = Some [twice_flying], has_more = Some False, next_page = None \<rparr>"
  have h1: "remote flying_catalogue url = Inr flying_page" for url
    by (simp add: flying_catalogue_def)
  have h2: "status_code flying_page = 200"
    by (simp add: flying_page_def)
  have h3: "json flying_page = Some dat"
    by (simp add: flying_page_def dat_def)
  have h4: "data dat = Some [twice_flying]"
    by (simp add: dat_def)
  have h6: "storage_error keyword_conflict"
    by (simp add: keyword_conflict_def)
  have full: "process_card_page flying_catalogue
        (new_database\<lparr>fetched := fetched new_database @ [api_base_url @ ''/cards'']\<rparr>)
        [twice_flying] True =
      (Some keyword_conflict, snd (process_card_page flying_catalogue
        (new_database\<lparr>fetched := fetched new_database @ [api_base_url @ ''/cards'']\<rparr>)
        [twice_flying] True))"
    by code_simp
  have incr: "process_card_page flying_catalogue
        (new_database\<lparr>fetched := fetched new_database @
           [search_url (last_update_date (conn new_database))]\<rparr>)
        [twice_flying] True =
      (Some keyword_conflict, snd (process_card_page flying_catalogue
        (new_database\<lparr>fetched := fetched new_database @
           [search_url (last_update_date (conn new_database))]\<rparr>)
        [twice_flying] True))"
    by code_simp
  have a: "map_option fst (fetch_all_cards flying_catalogue True new_database) = Some (Some keyword_conflict)"
    using storage_failure_propagation [OF h1 h2 h3 h4 full h6, of dat new_database] by simp
  have b: "map_option fst (update_database flying_catalogue new_database) = Some None"
    using storage_failure_propagation [OF h1 h2 h3 h4 incr h6, of dat new_database] by simp
  from h1 h2 h6 a b show ?thesis by simp
qed

subsection \<open>The loop over the pages, and the watermark\<close>

lemma fetch_more_Done: "fetch_step ev upd dat s = Done y \<Longrightarrow> fetch_more ev upd dat s = Some y"
  by (subst fetch_more.simps) simp

lemma fetch_more_Continue:
  "fetch_step ev upd dat s = Continue dat' s' \<Longrightarrow>
     fetch_more ev upd dat s = fetch_more ev upd dat' s'"
  by (subst fetch_more.simps) simp

lemma fetch_more_induct [consumes 1, case_names Done Continue]:
  assumes "fetch_more ev upd dat s = Some y"
    and "\<And>dat s y. fetch_step ev upd dat s = Done y \<Longrightarrow> P dat s y"
    and "\<And>dat s dat' s' y. fetch_step ev upd dat s = Continue dat' s' \<Longrightarrow>
            fetch_more ev upd dat' s' = Some y \<Longrightarrow> P dat' s' y \<Longrightarrow> P dat s y"
  shows "P dat s y"
proof -
  have "ev' = ev \<and> upd' = upd \<longrightarrow> fetch_more ev upd dat s = Some y \<and> P dat s y"
    if "fetch_more ev' upd' dat s = Some y" for ev' upd'
  proof (rule fetch_more.raw_induct [where P = "\<lambda>ev' upd' dat s y.
      ev' = ev \<and> upd' = upd \<longrightarrow> fetch_more ev upd dat s = Some y \<and> P dat s y", OF _ that])
    fix f ev' upd' dat s y
    assume 1: "\<And>ev' upd' dat s y. f ev' upd' dat s = Some y \<Longrightarrow>
        ev' = ev \<and> upd' = upd \<longrightarrow> fetch_more ev upd dat s = Some y \<and> P dat s y"
      "(case fetch_step ev' upd' dat s of Done r \<Rightarrow> Some r
        | Continue dat' s' \<Rightarrow> f ev' upd' dat' s') = Some y"
    show "ev' = ev \<and> upd' = upd \<longrightarrow> fetch_more ev upd dat s = Some y \<and> P dat s y"
    proof (intro impI)
      assume eq: "ev' = ev \<and> upd' = upd"
      show "fetch_more ev upd dat s = Some y \<and> P dat s y"
      proof (cases "fetch_step ev upd dat s")
        case (Done r)
        with 1(2) eq have "r = y" by simp
        with Done show ?thesis
          by (simp add: fetch_more_Done assms(2))
      next
        case (Continue dat' s')
        with 1(2) eq have "f ev upd dat' s' = Some y" by simp
        with 1(1) have "fetch_more ev upd dat' s' = Some y \<and> P dat' s' y" by blast
        with Continue show ?thesis
          by (simp add: fetch_more_Continue assms(3))
      qed
    qed
  qed
  with assms(1) show ?thesis by blast
qed

lemma process_card_page_fetched:
  "process_card_page ev s cs upd = (r, s') \<Longrightarrow> fetched s' = fetched s"
  by (auto simp: process_card_page_def commit_def split: prod.splits option.splits
      dest: process_cards_committed)

lemma read_page_fetched:
  "read_page ev upd response s = Done (r, s') \<Longrightarrow> fetched s' = fetched s"
  "read_page ev upd response s = Continue dat s' \<Longrightarrow> fetched s' = fetched s"
  by (auto simp: read_page_def split: option.splits prod.splits dest: process_card_page_fetched)

lemma fetch_step_fetched:
  "fetch_step ev upd dat s = Done (r, s') \<Longrightarrow> \<exists>more. fetched s' = fetched s @ more"
  "fetch_step ev upd dat s = Continue dat' s' \<Longrightarrow> \<exists>more. fetched s' = fetched s @ more"
  by (auto simp: fetch_step_def requests_get_def split: if_splits option.splits sum.splits
      dest!: read_page_fetched)

lemma fetch_more_fetched:
  "fetch_more ev upd dat s = Some y \<Longrightarrow> \<exists>more. fetched (snd y) = fetched s @ more"
proof (induction rule: fetch_more_induct)
  case (Done dat s y)
  then show ?case by (cases y) (auto dest: fetch_step_fetched)
next
  case (Continue dat s dat' s' y)
  then show ?case by (auto dest!: fetch_step_fetched(2))
qed

lemma process_pages_fetched:
  "process_pages ev upd response s = Some y \<Longrightarrow> \<exists>more. fetched (snd y) = fetched s @ more"
  by (auto simp: process_pages_def split: outcome.splits dest!: read_page_fetched fetch_more_fetched)

lemma update_database_first_request:
  assumes "update_database ev s = Some y"
  shows "\<exists>more. fetched (snd y) = fetched s @ search_url (last_update_date (conn s)) # more"
  using assms
  by (auto simp: update_database_def update_body_def requests_get_def
      split: option.splits prod.splits sum.splits if_splits dest!: process_pages_fetched)

lemma Max_insert_max:
  "finite S \<Longrightarrow> Max (insert (max a b) S) = Max (insert a (insert b S))"
  for a b :: "'a :: linorder"
  by (cases "S = {}") (auto simp: max.assoc)

lemma fold_max_dates:
  "fold (\<lambda>r acc. case col_released_at r of
                       None \<Rightarrow> acc
                     | Some d \<Rightarrow> (case acc of None \<Rightarrow> Some d | Some m \<Rightarrow> Some (max m d)))
          rows acc =
   (case acc of
      None \<Rightarrow> (if List.map_filter col_released_at rows = [] then None
                else Some (Max (set (List.map_filter col_released_at rows))))
    | Some m \<Rightarrow> Some (Max (insert m (set (List.map_filter col_released_at rows)))))"
proof (induction rows arbitrary: acc)
  case Nil
  then show ?case by (simp add: List.map_filter_simps split: option.splits)
next
  case (Cons r rows)
  show ?case
    by (cases "col_released_at r"; cases acc)
       (simp_all add: Cons List.map_filter_simps Max_insert_max)
qed

lemma max_released_at_Max:
  "max_released_at t =
     (if released_dates t = [] then None else Some (Max (set (released_dates t))))"
  by (simp add: max_released_at_def released_dates_def fold_max_dates)


text \<open>
  A store whose only card was sent without \<^verbatim>\<open>released_at\<close> holds the empty text as its
  date: that is the maximum over the stored rows, and the run asks for the sentinel date.
\<close>

theorem watermark_of_undated_store_counterexample:
  "map col_released_at (cards_table undated_store) = [Some ''''] \<and>
   watermark_spec undated_store = '''' \<and>
   last_update_date undated_store = ''2000-01-01''"
  by code_simp

text \<open>
  C7, as the code has it: the date of the incremental query is the greatest
  \<^verbatim>\<open>released_at\<close> of the stored rows when there is one and it is not the empty text, and
  the sentinel \<^verbatim>\<open>2000-01-01\<close> otherwise (no row, no row with a date, or only empty
  dates). The first request of a run that returns is the search for the cards after that
  date.
\<close>

theorem incremental_watermark:
  "last_update_date (conn s) =
     (if released_dates (conn s) = [] \<or> Max (set (released_dates (conn s))) = ''''
      then ''2000-01-01'' else Max (set (released_dates (conn s)))) \<and>
   (\<forall>y. update_database ev s = Some y \<longrightarrow>
      (\<exists>more. fetched (snd y) =
         fetched s @ (api_base_url @ ''/cards/search?q=date>'' @ last_update_date (conn s)) # more))"
proof -
  have "\<exists>more. fetched (snd y) =
         fetched s @ (api_base_url @ ''/cards/search?q=date>'' @ last_update_date (conn s)) # more"
    if "update_database ev s = Some y" for y
    using update_database_first_request [OF that] by (simp add: search_url_def)
  then show ?thesis
    by (simp add: last_update_date_def max_released_at_Max)
qed

theorem incremental_watermark_witness:
  "released_dates (conn dated_store) = [''2020-01-01'', ''2023-05-05''] \<and>
   last_update_date (conn dated_store) = ''2023-05-05'' \<and>
   last_update_date (conn new_database) = ''2000-01-01'' \<and>
   map_option (fetched \<circ> snd) (update_database no_catalogue dated_store) =
     Some [''https://api.scryfall.com/cards/search?q=date>2023-05-05'']"
proof -
  have d: "released_dates (conn dated_store) = [''2020-01-01'', ''2023-05-05'']"
    by code_simp
  have e: "released_dates (conn new_database) = []"
    by code_simp
  have a: "last_update_date (conn dated_store) = ''2023-05-05''"
    using incremental_watermark [of dated_store no_catalogue] by (simp add: d)
  have b: "last_update_date (conn new_database) = ''2000-01-01''"
    using incremental_watermark [of new_database no_catalogue] by (simp add: e)
  have c: "map_option (fetched \<circ> snd) (update_database no_catalogue dated_store) =
     Some [''https://api.scryfall.com/cards/search?q=date>2023-05-05'']"
    by code_simp
  from a b c d show ?thesis
    by simp
qed

subsection \<open>Statistics\<close>

lemma length_utf8_skip: "s \<noteq> [] \<Longrightarrow> length (utf8_skip s) < length s"
  by (cases s) (auto simp: less_Suc_eq_le length_dropWhile_le)

declare sql_like.simps [simp del]

lemma sql_like_Nil [simp]: "sql_like [] s \<longleftrightarrow> s = []"
  by (simp add: sql_like.simps(1))

lemma sql_like_any:
  "sql_like (CHR ''%'' # ps) s \<longleftrightarrow>
     sql_like ps s \<or> (s \<noteq> [] \<and> sql_like (CHR ''%'' # ps) (utf8_skip s))"
  by (subst sql_like.simps) simp

lemma sql_like_char:
  "p \<noteq> CHR ''%'' \<Longrightarrow> p \<noteq> CHR ''_'' \<Longrightarrow>
     sql_like (p # ps) s \<longleftrightarrow>
       (case s of [] \<Rightarrow> False | c # cs \<Rightarrow> ascii_lower p = ascii_lower c \<and> sql_like ps cs)"
  by (subst sql_like.simps) (auto split: list.splits)

lemma sql_like_percent: "sql_like ''%'' s"
proof (induction "length s" arbitrary: s rule: less_induct)
  case less
  show ?case
  proof (cases "s = []")
    case True
    then show ?thesis by (subst sql_like_any) simp
  next
    case False
    then have "sql_like ''%'' (utf8_skip s)"
      by (intro less) (rule length_utf8_skip)
    then show ?thesis by (subst sql_like_any) simp
  qed
qed

lemma sql_like_literal:
  assumes "CHR ''%'' \<notin> set w" "CHR ''_'' \<notin> set w"
  shows "sql_like (w @ ''%'') s \<longleftrightarrow> prefix (map ascii_lower w) (map ascii_lower s)"
  using assms
proof (induction w arbitrary: s)
  case Nil
  then show ?case by (simp add: sql_like_percent)
next
  case (Cons c w)
  from Cons.prems have c: "c \<noteq> CHR ''%''" "c \<noteq> CHR ''_''"
    and w: "CHR ''%'' \<notin> set w" "CHR ''_'' \<notin> set w"
    by auto
  note IH = Cons.IH [OF w]
  show ?case
  proof (cases s)
    case Nil
    then show ?thesis
      using sql_like_char [OF c, of "w @ ''%''" s] by simp
  next
    case (Cons d ds)
    then show ?thesis
      using sql_like_char [OF c, of "w @ ''%''" s] IH [of ds] by simp
  qed
qed

lemma ascii_lower_continuation:
  "utf8_continuation c \<Longrightarrow> ascii_lower c = c"
  "utf8_continuation (ascii_lower c) \<longleftrightarrow> utf8_continuation c"
  by (auto simp: utf8_continuation_def ascii_lower_def)

lemma sublist_dropWhile_continuation:
  assumes "w \<noteq> []" "\<not> utf8_continuation (hd w)"
  shows "sublist (map ascii_lower w) (map ascii_lower (dropWhile utf8_continuation cs)) \<longleftrightarrow>
         sublist (map ascii_lower w) (map ascii_lower cs)"
proof (induction cs)
  case Nil
  then show ?case by simp
next
  case (Cons k cs)
  show ?case
  proof (cases "utf8_continuation k")
    case True
    have "\<not> prefix (map ascii_lower w) (ascii_lower k # map ascii_lower cs)"
    proof
      assume "prefix (map ascii_lower w) (ascii_lower k # map ascii_lower cs)"
      with assms(1) have "ascii_lower (hd w) = ascii_lower k"
        by (cases w) auto
      with True assms(2) show False
        by (metis ascii_lower_continuation(2))
    qed
    with True Cons show ?thesis
      by (simp add: sublist_Cons_right)
  next
    case False
    then show ?thesis by simp
  qed
qed

lemma sql_like_contains:
  assumes "plain_word w"
  shows "sql_like (CHR ''%'' # w @ ''%'') s \<longleftrightarrow> sublist (map ascii_lower w) (map ascii_lower s)"
proof (induction "length s" arbitrary: s rule: less_induct)
  case less
  have w: "CHR ''%'' \<notin> set w" "CHR ''_'' \<notin> set w" "w \<noteq> []" "\<not> utf8_continuation (hd w)"
    using assms by (auto simp: plain_word_def)
  show ?case
  proof (cases s)
    case Nil
    with w show ?thesis
      by (subst sql_like_any) (simp add: sql_like_literal)
  next
    case (Cons c cs)
    have skip: "sublist (map ascii_lower w) (map ascii_lower (utf8_skip s)) \<longleftrightarrow>
          sublist (map ascii_lower w) (map ascii_lower cs)"
      using Cons sublist_dropWhile_continuation [OF w(3,4)] by simp
    have "sql_like (CHR ''%'' # w @ ''%'') (utf8_skip s) \<longleftrightarrow>
          sublist (map ascii_lower w) (map ascii_lower (utf8_skip s))"
      using Cons by (intro less length_utf8_skip) simp
    with skip have rec: "sql_like (CHR ''%'' # w @ ''%'') (utf8_skip s) \<longleftrightarrow>
          sublist (map ascii_lower w) (map ascii_lower cs)"
      by simp
    have "sql_like (CHR ''%'' # w @ ''%'') s \<longleftrightarrow>
          sql_like (w @ ''%'') s \<or> sql_like (CHR ''%'' # w @ ''%'') (utf8_skip s)"
      using Cons by (subst sql_like_any) simp
    also have "\<dots> \<longleftrightarrow> prefix (map ascii_lower w) (map ascii_lower s) \<or>
          sublist (map ascii_lower w) (map ascii_lower cs)"
      using rec w by (simp add: sql_like_literal)
    also have "\<dots> \<longleftrightarrow> sublist (map ascii_lower w) (map ascii_lower s)"
      using Cons by (simp add: sublist_Cons_right)
    finally show ?thesis .
  qed
qed


subsection \<open>The encodings that the colour groups compare with\<close>

lemma json_escape_length: "1 \<le> length (json_escape c)"
  by (simp add: json_escape_def)

lemma json_escape_single: "json_escape a = [c] \<Longrightarrow> a = c"
  by (simp add: json_escape_def split: if_splits)

lemma concat_escape_single:
  assumes "concat (map json_escape x) = [c]"
  shows "x = [c]"
proof (cases x)
  case Nil
  with assms show ?thesis by simp
next
  case (Cons a as)
  with assms have eq: "json_escape a @ concat (map json_escape as) = [c]"
    by simp
  have "json_escape a \<noteq> []"
    using json_escape_length [of a] by auto
  with eq have a: "json_escape a = [c]" and rest: "concat (map json_escape as) = []"
    by (auto simp: append_eq_Cons_conv)
  have "as = []"
  proof (cases as)
    case Nil
    then show ?thesis .
  next
    case (Cons b bs)
    with rest have "json_escape b = []" by simp
    with json_escape_length [of b] show ?thesis by simp
  qed
  with a Cons show ?thesis
    by (simp add: json_escape_single)
qed

lemma json_string_length: "2 \<le> length (json_string x)"
  by (simp add: json_string_def)

lemma str_join_head: "length y \<le> length (str_join sep (y # zs))"
  by (cases zs) simp_all

lemma str_join_length: "length x + length sep + length y \<le> length (str_join sep (x # y # zs))"
  using str_join_head [of y sep zs] by simp

lemma json_dumps_long: "8 \<le> length (json_dumps (x # y # zs))"
proof -
  have "length (json_string x) + 2 + length (json_string y)
      \<le> length (str_join '', '' (map json_string (x # y # zs)))"
    using str_join_length [of "json_string x" "'', ''" "json_string y" "map json_string zs"]
    by simp
  with json_string_length [of x] json_string_length [of y]
  have "6 \<le> length (str_join '', '' (map json_string (x # y # zs)))"
    by linarith
  then show ?thesis
    by (simp add: json_dumps_def)
qed

lemma json_dumps_empty: "json_dumps xs = ''[]'' \<longleftrightarrow> xs = []"
proof (cases xs)
  case Nil
  then show ?thesis by (simp add: json_dumps_def)
next
  case (Cons x ys)
  show ?thesis
  proof (cases ys)
    case Nil
    with Cons show ?thesis
      using json_string_length [of x]
      by (auto simp: json_dumps_def dest!: arg_cong [where f = length])
  next
    case (Cons y zs)
    with \<open>xs = x # ys\<close> json_dumps_long [of x y zs] show ?thesis
      by (auto dest!: arg_cong [where f = length])
  qed
qed

lemma json_dumps_single:
  assumes "json_escape c = [c]"
  shows "json_dumps xs = ''['' @ [CHR 0x22] @ [c] @ [CHR 0x22] @ '']'' \<longleftrightarrow> xs = [[c]]"
proof (cases xs)
  case Nil
  then show ?thesis by (simp add: json_dumps_def)
next
  case (Cons x ys)
  show ?thesis
  proof (cases ys)
    case Nil
    with Cons assms show ?thesis
      by (auto simp: json_dumps_def json_string_def dest: concat_escape_single)
  next
    case (Cons y zs)
    with \<open>xs = x # ys\<close> json_dumps_long [of x y zs] show ?thesis
      by (auto dest!: arg_cong [where f = length])
  qed
qed

lemma color_group_encoded:
  "color_group (Some (json_dumps cs)) =
     (if cs = [] then ''Colorless''
      else if cs = [''W''] then ''White''
      else if cs = [''U''] then ''Blue''
      else if cs = [''B''] then ''Black''
      else if cs = [''R''] then ''Red''
      else if cs = [''G''] then ''Green''
      else ''Multicolor'')"
proof -
  have e: "json_escape CHR ''W'' = ''W''" "json_escape CHR ''U'' = ''U''"
    "json_escape CHR ''B'' = ''B''" "json_escape CHR ''R'' = ''R''"
    "json_escape CHR ''G'' = ''G''"
    by (simp_all add: json_escape_def)
  show ?thesis
    unfolding color_group_def option.inject
    by (simp only: json_dumps_empty json_dumps_single [OF e(1)] json_dumps_single [OF e(2)]
        json_dumps_single [OF e(3)] json_dumps_single [OF e(4)] json_dumps_single [OF e(5)])
qed


lemma find_first:
  "(case find P (w # ws) of Some v \<Rightarrow> v | None \<Rightarrow> d) =
     (if P w then w else (case find P ws of Some v \<Rightarrow> v | None \<Rightarrow> d))"
  by simp

lemma type_group_find:
  "type_group (Some text) =
     (case find (\<lambda>w. sublist (map ascii_lower w) (map ascii_lower text)) type_words of
        Some w \<Rightarrow> w
      | None \<Rightarrow> ''Other'')"
proof -
  have p: "plain_word ''Creature''" "plain_word ''Planeswalker''" "plain_word ''Instant''"
    "plain_word ''Sorcery''" "plain_word ''Enchantment''" "plain_word ''Artifact''"
    "plain_word ''Land''"
    by (simp_all add: plain_word_def utf8_continuation_def)
  have l: "sql_like ''%Creature%'' text \<longleftrightarrow> sublist (map ascii_lower ''Creature'') (map ascii_lower text)"
    "sql_like ''%Planeswalker%'' text \<longleftrightarrow> sublist (map ascii_lower ''Planeswalker'') (map ascii_lower text)"
    "sql_like ''%Instant%'' text \<longleftrightarrow> sublist (map ascii_lower ''Instant'') (map ascii_lower text)"
    "sql_like ''%Sorcery%'' text \<longleftrightarrow> sublist (map ascii_lower ''Sorcery'') (map ascii_lower text)"
    "sql_like ''%Enchantment%'' text \<longleftrightarrow> sublist (map ascii_lower ''Enchantment'') (map ascii_lower text)"
    "sql_like ''%Artifact%'' text \<longleftrightarrow> sublist (map ascii_lower ''Artifact'') (map ascii_lower text)"
    "sql_like ''%Land%'' text \<longleftrightarrow> sublist (map ascii_lower ''Land'') (map ascii_lower text)"
    using p [THEN sql_like_contains, of "text"] by simp_all
  show ?thesis
    unfolding type_group_def column_like_def option.case l type_words_def
    by (simp only: find_first find.simps(1) option.case)
qed

lemma group_count_member:
  "r \<in> set rows \<Longrightarrow> group_count g rows (g r) = Some (length (filter (\<lambda>r'. g r' = g r) rows))"
  by (auto simp: group_count_def Let_def filter_empty_conv)

text \<open>
  C9: \<^verbatim>\<open>get_stats\<close> puts a row into its colour group by comparing the encoded colour
  identity with six encodings: the empty list is Colorless, a list of one of the five
  colours has that colour's name, and every other list, like a NULL, is Multicolor. It puts
  the row into its type group by the first word of Creature, Planeswalker, Instant, Sorcery,
  Enchantment, Artifact, Land that occurs in the type line, letters compared without regard
  to case, and into Other when none occurs or the type line is NULL. Each row is counted in
  the group it falls into.
\<close>

theorem stats_classification:
  "color_group (Some (json_dumps cs)) =
     (case map_of color_names cs of Some name \<Rightarrow> name | None \<Rightarrow> ''Multicolor'') \<and>
   color_group None = ''Multicolor'' \<and>
   type_group (Some text) =
     (case find (\<lambda>w. sublist (map ascii_lower w) (map ascii_lower text)) type_words of
        Some w \<Rightarrow> w
      | None \<Rightarrow> ''Other'') \<and>
   type_group None = ''Other'' \<and>
   (\<forall>r \<in> set (cards_table t).
      stats_colors (get_stats t) (color_group (col_color_identity r)) =
        Some (length (filter (\<lambda>r'. color_group (col_color_identity r') =
                                   color_group (col_color_identity r)) (cards_table t))) \<and>
      stats_types (get_stats t) (type_group (col_type_line r)) =
        Some (length (filter (\<lambda>r'. type_group (col_type_line r') =
                                   type_group (col_type_line r)) (cards_table t))))"
proof -
  have 1: "color_group (Some (json_dumps cs)) =
     (case map_of color_names cs of Some name \<Rightarrow> name | None \<Rightarrow> ''Multicolor'')"
    by (simp add: color_group_encoded color_names_def)
  have 2: "color_group None = ''Multicolor''"
    by (simp add: color_group_def)
  have 4: "type_group None = ''Other''"
    by (simp add: type_group_def column_like_def)
  have 5: "stats_colors (get_stats t) (color_group (col_color_identity r)) =
        Some (length (filter (\<lambda>r'. color_group (col_color_identity r') =
                                   color_group (col_color_identity r)) (cards_table t)))"
    if "r \<in> set (cards_table t)" for r
    using group_count_member [OF that, of "\<lambda>r. color_group (col_color_identity r)"]
    by (simp add: get_stats_def)
  have 6: "stats_types (get_stats t) (type_group (col_type_line r)) =
        Some (length (filter (\<lambda>r'. type_group (col_type_line r') =
                                   type_group (col_type_line r)) (cards_table t)))"
    if "r \<in> set (cards_table t)" for r
    using group_count_member [OF that, of "\<lambda>r. type_group (col_type_line r)"]
    by (simp add: get_stats_def)
  from 1 2 type_group_find [of "text"] 4 5 6 show ?thesis
    by blast
qed

theorem stats_classification_witness:
  "color_group (Some (json_dumps [])) = ''Colorless'' \<and>
   color_group (Some (json_dumps [''U''])) = ''Blue'' \<and>
   color_group (Some (json_dumps [''U'', ''B''])) = ''Multicolor'' \<and>
   type_group (Some golem_line) = ''Creature'' \<and>
   map (\<lambda>r. (col_color_identity r, col_type_line r)) (cards_table golem_store) =
     [(Some (json_dumps [''U'']), Some golem_line)] \<and>
   stats_colors (get_stats golem_store) ''Blue'' = Some 1 \<and>
   stats_types (get_stats golem_store) ''Creature'' = Some 1"
proof -
  have m: "map_of color_names [] = Some ''Colorless''" "map_of color_names [''U''] = Some ''Blue''"
    "map_of color_names [''U'', ''B''] = None"
    by (simp_all add: color_names_def)
  have f: "(case find (\<lambda>w. sublist (map ascii_lower w) (map ascii_lower golem_line)) type_words of
        Some w \<Rightarrow> w | None \<Rightarrow> ''Other'') = ''Creature''"
    by code_simp
  have a: "color_group (Some (json_dumps [])) = ''Colorless''"
    using stats_classification [of "[]" golem_line golem_store] by (simp only: m option.case)
  have b: "color_group (Some (json_dumps [''U''])) = ''Blue''"
    using stats_classification [of "[''U'']" golem_line golem_store] by (simp only: m option.case)
  have c: "color_group (Some (json_dumps [''U'', ''B''])) = ''Multicolor''"
    using stats_classification [of "[''U'', ''B'']" golem_line golem_store]
    by (simp only: m option.case)
  have d: "type_group (Some golem_line) = ''Creature''"
    using stats_classification [of "[]" golem_line golem_store] by (simp only: f)
  have e: "map (\<lambda>r. (col_color_identity r, col_type_line r)) (cards_table golem_store) =
     [(Some (json_dumps [''U'']), Some golem_line)]"
    by code_simp
  have g: "stats_colors (get_stats golem_store) ''Blue'' = Some 1"
    by code_simp
  have h: "stats_types (get_stats golem_store) ''Creature'' = Some 1"
    by code_simp
  from a b c d e g h show ?thesis
    by (intro conjI)
qed

subsection \<open>A run as a list of records\<close>

lemma core_simps [simp]:
  "core (s\<lparr>fetched := f\<rparr>) = core s"
  "core (s\<lparr>committed := c\<rparr>) = core s"
  "core (commit s) = core s"
  by (simp_all add: core_def commit_def)

lemma core_eqD: "core s = core u \<Longrightarrow> u = s\<lparr>committed := committed u, fetched := fetched u\<rparr>"
  by (cases s; cases u) (simp add: core_def)

lemma process_card_frame:
  "process_card ev upd (s\<lparr>committed := c, fetched := f\<rparr>) rec =
     (case process_card ev upd s rec of (r, s') \<Rightarrow> (r, s'\<lparr>committed := c, fetched := f\<rparr>))"
  by (simp add: process_card_def Let_def split: option.splits sum.splits prod.splits)

lemma process_cards_frame:
  "process_cards ev upd (s\<lparr>committed := c, fetched := f\<rparr>) recs =
     (case process_cards ev upd s recs of (r, s') \<Rightarrow> (r, s'\<lparr>committed := c, fetched := f\<rparr>))"
proof (induction recs arbitrary: s)
  case Nil
  then show ?case by simp
next
  case (Cons rec recs)
  show ?case
    by (simp add: process_card_frame Cons split: prod.splits option.splits)
qed

lemma process_cards_core:
  assumes "core s = core u"
  shows "fst (process_cards ev upd u recs) = fst (process_cards ev upd s recs) \<and>
         core (snd (process_cards ev upd u recs)) = core (snd (process_cards ev upd s recs))"
proof -
  have "process_cards ev upd u recs =
      (case process_cards ev upd s recs of
         (r, s') \<Rightarrow> (r, s'\<lparr>committed := committed u, fetched := fetched u\<rparr>))"
    by (subst core_eqD [OF assms]) (rule process_cards_frame)
  then show ?thesis
    by (simp split: prod.splits)
qed


text \<open>A page that goes through, seen as a run of the loop body over its records.\<close>

lemma process_card_page_None:
  "process_card_page ev s cs upd = (None, s') \<longleftrightarrow>
     fst (process_cards ev upd s cs) = None \<and> s' = commit (snd (process_cards ev upd s cs))"
  by (auto simp: process_card_page_def split: prod.splits option.splits)

lemma read_page_not_Done_None: "read_page ev upd response s \<noteq> Done (None, s')"
  by (simp add: read_page_def split: option.splits prod.splits)

lemma read_page_Continue:
  assumes "read_page ev upd response s = Continue dat s'"
  shows "\<exists>cs. fst (process_cards ev upd s cs) = None \<and>
           core s' = core (snd (process_cards ev upd s cs)) \<and>
           (\<forall>u. fst (process_cards ev upd u cs) = None \<longrightarrow>
              (\<exists>u'. read_page ev upd response u = Continue dat u' \<and>
                 core u' = core (snd (process_cards ev upd u cs))))"
proof -
  from assms obtain cs where j: "json response = Some dat" and d: "data dat = Some cs"
    and p: "process_card_page ev s cs upd = (None, s')"
    by (auto simp: read_page_def split: option.splits prod.splits)
  from p have "fst (process_cards ev upd s cs) = None"
    and "core s' = core (snd (process_cards ev upd s cs))"
    by (simp_all add: process_card_page_None)
  moreover have "\<exists>u'. read_page ev upd response u = Continue dat u' \<and>
                 core u' = core (snd (process_cards ev upd u cs))"
    if "fst (process_cards ev upd u cs) = None" for u
  proof -
    from that have "process_card_page ev u cs upd = (None, commit (snd (process_cards ev upd u cs)))"
      by (simp add: process_card_page_None)
    with j d show ?thesis
      by (simp add: read_page_def)
  qed
  ultimately show ?thesis by blast
qed

lemma fetch_step_Done_None:
  assumes "fetch_step ev upd dat s = Done (None, s1)"
  shows "core s1 = core s \<and>
         (\<exists>u1. fetch_step ev upd dat u = Done (None, u1) \<and> core u1 = core u)"
  using assms
  by (auto simp: fetch_step_def requests_get_def read_page_not_Done_None
      split: if_splits option.splits sum.splits)

lemma fetch_step_Continue:
  assumes "fetch_step ev upd dat s = Continue dat' s'"
  shows "\<exists>cs. fst (process_cards ev upd s cs) = None \<and>
           core s' = core (snd (process_cards ev upd s cs)) \<and>
           (\<forall>u. fst (process_cards ev upd u cs) = None \<longrightarrow>
              (\<exists>u'. fetch_step ev upd dat u = Continue dat' u' \<and>
                 core u' = core (snd (process_cards ev upd u cs))))"
proof -
  from assms obtain url response where h: "get_or (has_more dat) False"
    and n: "next_page dat = Some url" and r: "remote ev url = Inr response"
    and st: "status_code response = 200"
    and rp: "read_page ev upd response (s\<lparr>fetched := fetched s @ [url]\<rparr>) = Continue dat' s'"
    by (auto simp: fetch_step_def requests_get_def split: if_splits option.splits sum.splits)
  from read_page_Continue [OF rp] obtain cs
    where a: "fst (process_cards ev upd (s\<lparr>fetched := fetched s @ [url]\<rparr>) cs) = None"
      and b: "core s' = core (snd (process_cards ev upd (s\<lparr>fetched := fetched s @ [url]\<rparr>) cs))"
      and c: "\<And>u. fst (process_cards ev upd u cs) = None \<Longrightarrow>
              (\<exists>u'. read_page ev upd response u = Continue dat' u' \<and>
                 core u' = core (snd (process_cards ev upd u cs)))"
    by blast
  have fr: "fst (process_cards ev upd (u\<lparr>fetched := f\<rparr>) cs) = fst (process_cards ev upd u cs) \<and>
        core (snd (process_cards ev upd (u\<lparr>fetched := f\<rparr>) cs)) = core (snd (process_cards ev upd u cs))"
    for u f
    by (rule process_cards_core) simp
  have "\<exists>u'. fetch_step ev upd dat u = Continue dat' u' \<and>
                 core u' = core (snd (process_cards ev upd u cs))"
    if "fst (process_cards ev upd u cs) = None" for u
  proof -
    from that have "fst (process_cards ev upd (u\<lparr>fetched := fetched u @ [url]\<rparr>) cs) = None"
      by (simp add: fr)
    from c [OF this] fr show ?thesis
      using h n r st by (auto simp: fetch_step_def requests_get_def)
  qed
  with a b fr show ?thesis by auto
qed

lemma fetch_more_trace:
  assumes "fetch_more ev upd dat s = Some y"
  shows "fst y = None \<longrightarrow>
     (\<exists>R. fst (process_cards ev upd s R) = None \<and>
        core (snd y) = core (snd (process_cards ev upd s R)) \<and>
        (\<forall>u. fst (process_cards ev upd u R) = None \<longrightarrow>
           (\<exists>u1. fetch_more ev upd dat u = Some (None, u1) \<and>
              core u1 = core (snd (process_cards ev upd u R)))))"
  using assms
proof (induction rule: fetch_more_induct)
  case (Done dat s y)
  show ?case
  proof
    assume "fst y = None"
    with Done have d: "fetch_step ev upd dat s = Done (None, snd y)"
      by (cases y) simp
    have "\<exists>u1. fetch_more ev upd dat u = Some (None, u1) \<and> core u1 = core u" for u
      using fetch_step_Done_None [OF d, of u] by (auto dest: fetch_more_Done)
    with fetch_step_Done_None [OF d, of s] show "\<exists>R. fst (process_cards ev upd s R) = None \<and>
        core (snd y) = core (snd (process_cards ev upd s R)) \<and>
        (\<forall>u. fst (process_cards ev upd u R) = None \<longrightarrow>
           (\<exists>u1. fetch_more ev upd dat u = Some (None, u1) \<and>
              core u1 = core (snd (process_cards ev upd u R))))"
      by (intro exI [of _ "[]"]) simp
  qed
next
  case (Continue dat s dat' s' y)
  show ?case
  proof
    assume y: "fst y = None"
    from fetch_step_Continue [OF Continue(1)] obtain cs
      where a: "fst (process_cards ev upd s cs) = None"
        and b: "core s' = core (snd (process_cards ev upd s cs))"
        and c: "\<And>u. fst (process_cards ev upd u cs) = None \<Longrightarrow>
              (\<exists>u'. fetch_step ev upd dat u = Continue dat' u' \<and>
                 core u' = core (snd (process_cards ev upd u cs)))"
      by blast
    from Continue(3) y obtain R
      where a': "fst (process_cards ev upd s' R) = None"
        and b': "core (snd y) = core (snd (process_cards ev upd s' R))"
        and c': "\<And>u. fst (process_cards ev upd u R) = None \<Longrightarrow>
           (\<exists>u1. fetch_more ev upd dat' u = Some (None, u1) \<and>
              core u1 = core (snd (process_cards ev upd u R)))"
      by blast
    have app: "process_cards ev upd u (cs @ R) =
        process_cards ev upd (snd (process_cards ev upd u cs)) R"
      if "fst (process_cards ev upd u cs) = None" for u
      using that by (cases "process_cards ev upd u cs") (simp add: process_cards_append)
    have mid: "fst (process_cards ev upd u cs) = None"
      if "fst (process_cards ev upd u (cs @ R)) = None" for u
      using that by (auto simp: process_cards_append split: prod.splits option.splits)
    have 1: "fst (process_cards ev upd s (cs @ R)) = None"
      using a a' process_cards_core [OF b [symmetric], of ev upd R] by (simp add: app)
    have 2: "core (snd y) = core (snd (process_cards ev upd s (cs @ R)))"
      using a b' process_cards_core [OF b [symmetric], of ev upd R] by (simp add: app)
    have 3: "\<exists>u1. fetch_more ev upd dat u = Some (None, u1) \<and>
              core u1 = core (snd (process_cards ev upd u (cs @ R)))"
      if "fst (process_cards ev upd u (cs @ R)) = None" for u
    proof -
      from c [OF mid [OF that]] obtain u'
        where s: "fetch_step ev upd dat u = Continue dat' u'"
          and k: "core u' = core (snd (process_cards ev upd u cs))"
        by blast
      from that have "fst (process_cards ev upd (snd (process_cards ev upd u cs)) R) = None"
        by (simp add: app [OF mid [OF that]])
      with process_cards_core [OF k [symmetric], of ev upd R]
      have "fst (process_cards ev upd u' R) = None"
        by simp
      from c' [OF this] obtain u1
        where f: "fetch_more ev upd dat' u' = Some (None, u1)"
          and g: "core u1 = core (snd (process_cards ev upd u' R))"
        by blast
      from f s have "fetch_more ev upd dat u = Some (None, u1)"
        by (simp add: fetch_more_Continue)
      moreover from g process_cards_core [OF k [symmetric], of ev upd R]
      have "core u1 = core (snd (process_cards ev upd u (cs @ R)))"
        by (simp add: app [OF mid [OF that]])
      ultimately show ?thesis by blast
    qed
    from 1 2 3 show "\<exists>R. fst (process_cards ev upd s R) = None \<and>
        core (snd y) = core (snd (process_cards ev upd s R)) \<and>
        (\<forall>u. fst (process_cards ev upd u R) = None \<longrightarrow>
           (\<exists>u1. fetch_more ev upd dat u = Some (None, u1) \<and>
              core u1 = core (snd (process_cards ev upd u R))))"
      by blast
  qed
qed

lemma fetch_all_cards_fetch_more:
  "fetch_all_cards ev upd s = fetch_more ev upd first_page s"
  by (subst fetch_more.simps)
     (auto simp: fetch_all_cards_def fetch_step_def process_pages_def first_page_def get_or_def
        split: prod.splits sum.splits outcome.splits)

subsection \<open>When the dependent rows go in\<close>

lemma legality_key_rows [simp]: "legality_key (c, f, st) = (c, f)"
  by (simp add: legality_key_def)

lemma insert_legalities_ok_iff:
  "fst (insert_legalities t c ls) = None \<longleftrightarrow>
     distinct (map fst ls) \<and>
     (\<forall>f \<in> fst ` set ls. (c, f) \<notin> legality_key ` set (legalities_table t))"
proof (induction t c ls rule: insert_legalities.induct)
  case (1 t c)
  then show ?case by simp
next
  case (2 t c f st rest)
  show ?case
  proof (cases "(c, f) \<in> legality_key ` set (legalities_table t)")
    case True
    then show ?thesis
      by (auto simp: insert_legality_def)
  next
    case False
    then have i: "insert_legality t (c, f, st) = Inr (t\<lparr>legalities_table := legalities_table t @ [(c, f, st)]\<rparr>)"
      by (simp add: insert_legality_def)
    show ?thesis
      using False 2 [OF i] by (auto simp: i image_iff)
  qed
qed

lemma insert_keywords_ok_iff:
  "fst (insert_keywords t c ks) = None \<longleftrightarrow>
     distinct ks \<and> (\<forall>k \<in> set ks. (c, k) \<notin> set (keywords_table t))"
proof (induction t c ks rule: insert_keywords.induct)
  case (1 t c)
  then show ?case by simp
next
  case (2 t c k rest)
  show ?case
  proof (cases "(c, k) \<in> set (keywords_table t)")
    case True
    then show ?thesis
      by (auto simp: insert_keyword_def)
  next
    case False
    then have i: "insert_keyword t (c, k) = Inr (t\<lparr>keywords_table := keywords_table t @ [(c, k)]\<rparr>)"
      by (simp add: insert_keyword_def)
    show ?thesis
      using False 2 [OF i] by (auto simp: i)
  qed
qed

lemma add_dependents_ok_iff:
  "fst (add_dependents t c rec) = None \<longleftrightarrow>
     distinct (map fst (get_or (raw_legalities rec) [])) \<and>
     (\<forall>f \<in> fst ` set (get_or (raw_legalities rec) []).
        (c, f) \<notin> legality_key ` set (legalities_table t)) \<and>
     distinct (get_or (raw_keywords rec) []) \<and>
     (\<forall>k \<in> set (get_or (raw_keywords rec) []). (c, k) \<notin> set (keywords_table t))"
proof -
  have l: "fst (insert_legalities t c (get_or (raw_legalities rec) [])) = None \<longleftrightarrow>
     distinct (map fst (get_or (raw_legalities rec) [])) \<and>
     (\<forall>f \<in> fst ` set (get_or (raw_legalities rec) []).
        (c, f) \<notin> legality_key ` set (legalities_table t))"
    by (rule insert_legalities_ok_iff)
  have k: "fst (insert_keywords t' c (get_or (raw_keywords rec) [])) = None \<longleftrightarrow>
     distinct (get_or (raw_keywords rec) []) \<and>
     (\<forall>k \<in> set (get_or (raw_keywords rec) []). (c, k) \<notin> set (keywords_table t))"
    if "keywords_table t' = keywords_table t" for t'
    by (simp add: insert_keywords_ok_iff that)
  have shape: "add_dependents t c rec =
     (case insert_legalities t c (get_or (raw_legalities rec) []) of
        (Some e, t') \<Rightarrow> (Some e, t')
      | (None, t') \<Rightarrow> insert_keywords t' c (get_or (raw_keywords rec) []))"
    by (cases "raw_legalities rec"; cases "raw_keywords rec")
       (auto simp: add_dependents_def get_or_def split: prod.splits option.splits)
  show ?thesis
  proof (cases "insert_legalities t c (get_or (raw_legalities rec) [])")
    case (Pair r t')
    then have kw: "keywords_table t' = keywords_table t"
      by (auto dest: insert_legalities_frame)
    show ?thesis
    proof (cases r)
      case None
      with Pair l k [OF kw] show ?thesis
        by (simp add: shape)
    next
      case (Some e)
      with Pair l show ?thesis
        by (simp add: shape)
    qed
  qed
qed


subsection \<open>The keys stay distinct\<close>

lemma insert_legalities_distinct:
  "distinct (map legality_key (legalities_table t)) \<Longrightarrow>
   distinct (map legality_key (legalities_table (snd (insert_legalities t c ls))))"
  by (induction t c ls rule: insert_legalities.induct)
     (auto simp: insert_legality_def)

lemma insert_keywords_distinct:
  "distinct (keywords_table t) \<Longrightarrow>
   distinct (keywords_table (snd (insert_keywords t c ks)))"
  by (induction t c ks rule: insert_keywords.induct)
     (auto simp: insert_keyword_def)

lemma add_dependents_keys_distinct:
  assumes "keys_distinct t"
  shows "keys_distinct (snd (add_dependents t c rec))"
proof -
  have l: "keys_distinct (snd (insert_legalities t c ls))" for ls
    using assms insert_legalities_distinct [of t c ls]
      insert_legalities_frame [of t c ls "fst (insert_legalities t c ls)" "snd (insert_legalities t c ls)"]
    by (simp add: keys_distinct_def)
  have k: "keys_distinct (snd (insert_keywords t' c ks))" if "keys_distinct t'" for t' ks
    using that insert_keywords_distinct [of t' c ks]
      insert_keywords_frame [of t' c ks "fst (insert_keywords t' c ks)" "snd (insert_keywords t' c ks)"]
    by (simp add: keys_distinct_def)
  show ?thesis
  proof (cases "raw_legalities rec")
    case None
    with assms k [OF assms] show ?thesis
      by (auto simp: add_dependents_def split: option.splits)
  next
    case (Some ls)
    show ?thesis
    proof (cases "insert_legalities t c ls")
      case (Pair r t')
      with l [of ls] have t': "keys_distinct t'" by simp
      with Pair Some k [OF t'] show ?thesis
        by (auto simp: add_dependents_def split: option.splits)
    qed
  qed
qed

lemma delete_keys_distinct:
  "keys_distinct t \<Longrightarrow> keys_distinct (delete_keywords (delete_legalities (update_card t row) c) c)"
  by (simp add: keys_distinct_def delete_keywords_def delete_legalities_def update_card_def
      distinct_map_filter)

lemma process_card_keys_distinct:
  assumes "keys_distinct (conn s)"
  shows "keys_distinct (conn (snd (process_card ev upd s rec)))"
proof (rule process_card_cases [where rec = rec and s = s and upd = upd])
  assume "raw_id rec = None"
  with assms show ?thesis by (simp add: process_card_no_id)
next
  fix cid assume "raw_id rec = Some cid" "cid \<in> col_id ` set (cards_table (conn s))" "\<not> upd"
  with assms show ?thesis by (simp add: process_card_skip)
next
  fix cid e assume "raw_id rec = Some cid"
    "upd \<or> cid \<notin> col_id ` set (cards_table (conn s))" "image_uri_of rec = Inl e"
  with assms show ?thesis by (simp add: process_card_image_error)
next
  fix cid img assume h: "raw_id rec = Some cid" "cid \<in> col_id ` set (cards_table (conn s))"
    "upd" "image_uri_of rec = Inr img"
  show ?thesis
    using add_dependents_keys_distinct [OF delete_keys_distinct [OF assms],
        of "card_data rec cid img (now ev (ticks s))" cid cid rec]
    by (simp add: process_card_update [OF h] case_prod_beta)
next
  fix cid img assume h: "raw_id rec = Some cid" "cid \<notin> col_id ` set (cards_table (conn s))"
    "image_uri_of rec = Inr img"
  have "keys_distinct ((conn s)\<lparr>cards_table := cards_table (conn s) @ [card_data rec cid img (now ev (ticks s))]\<rparr>)"
    using assms by (simp add: keys_distinct_def)
  from add_dependents_keys_distinct [OF this, of cid rec] show ?thesis
    by (simp add: process_card_insert [OF h] case_prod_beta)
qed

lemma process_cards_keys_distinct:
  "keys_distinct (conn s) \<Longrightarrow> keys_distinct (conn (snd (process_cards ev upd s recs)))"
proof (induction recs arbitrary: s)
  case Nil
  then show ?case by simp
next
  case (Cons rec recs)
  from process_card_keys_distinct [OF Cons.prems, of ev upd rec] Cons.IH
  show ?case
    by (cases "process_card ev upd s rec") (auto split: option.splits)
qed

subsection \<open>A record that went through goes through again\<close>

lemma process_card_update_mode:
  assumes "process_card ev True s rec = (None, s')"
  obtains cid img where "raw_id rec = Some cid" "image_uri_of rec = Inr img"
    "fst (add_dependents (if cid \<in> card_ids (conn s)
        then delete_keywords (delete_legalities
             (update_card (conn s) (card_data rec cid img (now ev (ticks s)))) cid) cid
        else (conn s)\<lparr>cards_table := cards_table (conn s) @ [card_data rec cid img (now ev (ticks s))]\<rparr>)
       cid rec) = None"
    "cards_table (conn s') =
       (if cid \<in> card_ids (conn s)
        then map (\<lambda>r. if col_id r = cid then card_data rec cid img (now ev (ticks s)) else r)
               (cards_table (conn s))
        else cards_table (conn s) @ [card_data rec cid img (now ev (ticks s))])"
proof (rule process_card_cases [where rec = rec and s = s and upd = True])
  assume "raw_id rec = None"
  with assms show ?thesis by (simp add: process_card_no_id)
next
  fix cid assume "raw_id rec = Some cid" "cid \<in> col_id ` set (cards_table (conn s))" "\<not> True"
  then show ?thesis by simp
next
  fix cid e assume "raw_id rec = Some cid"
    "True \<or> cid \<notin> col_id ` set (cards_table (conn s))" "image_uri_of rec = Inl e"
  with assms show ?thesis by (simp add: process_card_image_error)
next
  fix cid img assume h: "raw_id rec = Some cid" "cid \<in> col_id ` set (cards_table (conn s))"
    "True" "image_uri_of rec = Inr img"
  from assms show ?thesis
    by (intro that [of cid img])
       (auto simp: h process_card_update [OF h] card_ids_def update_card_def
          delete_keywords_def delete_legalities_def
          split: prod.splits dest!: add_dependents_cards)
next
  fix cid img assume h: "raw_id rec = Some cid" "cid \<notin> col_id ` set (cards_table (conn s))"
    "image_uri_of rec = Inr img"
  from assms show ?thesis
    by (intro that [of cid img])
       (auto simp: h process_card_insert [OF h] card_ids_def
          split: prod.splits dest!: add_dependents_cards)
qed

lemma map_col_id_update:
  "col_id row = cid \<Longrightarrow>
     map col_id (map (\<lambda>r. if col_id r = cid then row else r) rows) = map col_id rows"
  by (induction rows) auto

lemma card_ids_after:
  assumes "cards_table t' =
       (if cid \<in> card_ids t
        then map (\<lambda>r. if col_id r = cid then row else r) (cards_table t)
        else cards_table t @ [row])" "col_id row = cid"
  shows "card_ids t' = insert cid (card_ids t)"
proof -
  have "map col_id (cards_table t') =
      (if cid \<in> card_ids t then map col_id (cards_table t) else map col_id (cards_table t) @ [cid])"
    using assms by (simp add: map_col_id_update)
  then have "set (map col_id (cards_table t')) = insert cid (card_ids t)"
    by (auto simp: card_ids_def)
  then show ?thesis
    by (simp add: card_ids_def)
qed

lemma process_card_ok:
  assumes "process_card ev True s rec = (None, s')"
  shows "rec_ok rec \<and> the (raw_id rec) \<in> card_ids (conn s') \<and> card_ids (conn s) \<subseteq> card_ids (conn s')"
proof -
  from assms obtain cid img where h: "raw_id rec = Some cid" "image_uri_of rec = Inr img"
    and d: "fst (add_dependents (if cid \<in> card_ids (conn s)
        then delete_keywords (delete_legalities
             (update_card (conn s) (card_data rec cid img (now ev (ticks s)))) cid) cid
        else (conn s)\<lparr>cards_table := cards_table (conn s) @ [card_data rec cid img (now ev (ticks s))]\<rparr>)
       cid rec) = None"
    and c: "cards_table (conn s') =
       (if cid \<in> card_ids (conn s)
        then map (\<lambda>r. if col_id r = cid then card_data rec cid img (now ev (ticks s)) else r)
               (cards_table (conn s))
        else cards_table (conn s) @ [card_data rec cid img (now ev (ticks s))])"
    by (rule process_card_update_mode)
  from d have "rec_ok rec"
    by (simp add: add_dependents_ok_iff rec_ok_def h)
  moreover from card_ids_after [OF c] have "cid \<in> card_ids (conn s')" "card_ids (conn s) \<subseteq> card_ids (conn s')"
    by auto
  ultimately show ?thesis
    using h by simp
qed

lemma process_card_again:
  assumes "rec_ok rec" "the (raw_id rec) \<in> card_ids (conn s)"
  shows "fst (process_card ev True s rec) = None \<and>
         cards_table (conn (snd (process_card ev True s rec))) =
           map (\<lambda>r. if col_id r = the (raw_id rec)
                     then card_data rec (the (raw_id rec)) (projr (image_uri_of rec)) (now ev (ticks s))
                     else r) (cards_table (conn s))"
proof -
  from assms(1) obtain cid img where h: "raw_id rec = Some cid" "image_uri_of rec = Inr img"
    and d: "distinct (map fst (get_or (raw_legalities rec) []))" "distinct (get_or (raw_keywords rec) [])"
    by (cases "image_uri_of rec") (auto simp: rec_ok_def)
  from assms(2) h have i: "cid \<in> col_id ` set (cards_table (conn s))"
    by (simp add: card_ids_def)
  define t where "t = delete_keywords (delete_legalities
             (update_card (conn s) (card_data rec cid img (now ev (ticks s)))) cid) cid"
  have "fst (add_dependents t cid rec) = None"
    using d by (auto simp: add_dependents_ok_iff t_def delete_keywords_def delete_legalities_def
        update_card_def legality_key_def)
  moreover have "cards_table (snd (add_dependents t cid rec)) = cards_table t"
    by (rule add_dependents_cards [of t cid rec "fst (add_dependents t cid rec)"]) simp
  ultimately show ?thesis
    using h by (simp add: process_card_update [OF h(1) i _ h(2)] t_def [symmetric] case_prod_beta)
      (simp add: t_def delete_keywords_def delete_legalities_def update_card_def)
qed


subsection \<open>The rows of \<^verbatim>\<open>cards\<close> after a run in update mode\<close>

lemma strip_stamp_card_data:
  "raw_id rec = Some cid \<Longrightarrow> image_uri_of rec = Inr img \<Longrightarrow>
     strip_stamp (card_data rec cid img stamp) = normalized rec"
  by (simp add: strip_stamp_def card_data_def normalized_def)

lemma col_id_strip_stamp [simp]: "col_id (strip_stamp row) = col_id row"
  by (simp add: strip_stamp_def)

lemma find_snoc:
  "find P (xs @ [y]) = (case find P xs of Some x \<Rightarrow> Some x | None \<Rightarrow> if P y then Some y else None)"
  by (induction xs) auto

lemma last_for_Cons:
  "last_for (rec # R) c =
     (case last_for R c of
        Some x \<Rightarrow> Some x
      | None \<Rightarrow> if raw_id rec = Some c then Some rec else None)"
  by (simp add: last_for_def find_snoc)

lemma last_for_None: "last_for R c = None \<longleftrightarrow> (\<forall>rec \<in> set R. raw_id rec \<noteq> Some c)"
  by (auto simp: last_for_def find_None_iff)

lemma process_cards_ok:
  assumes "process_cards ev True s R = (None, s1)"
  shows "(\<forall>rec \<in> set R. rec_ok rec \<and> the (raw_id rec) \<in> card_ids (conn s1)) \<and>
         card_ids (conn s) \<subseteq> card_ids (conn s1)"
  using assms
proof (induction R arbitrary: s)
  case Nil
  then show ?case by simp
next
  case (Cons rec R)
  from Cons.prems obtain s' where 1: "process_card ev True s rec = (None, s')"
    and 2: "process_cards ev True s' R = (None, s1)"
    by (auto split: prod.splits option.splits)
  from process_card_ok [OF 1] Cons.IH [OF 2] show ?case
    by auto
qed

lemma process_cards_again:
  assumes "\<forall>rec \<in> set R. rec_ok rec \<and> the (raw_id rec) \<in> card_ids (conn u)"
  shows "fst (process_cards ev True u R) = None \<and>
         map strip_stamp (cards_table (conn (snd (process_cards ev True u R)))) =
           refresh R (cards_table (conn u))"
  using assms
proof (induction R arbitrary: u)
  case Nil
  then show ?case by (simp add: refresh_def last_for_def)
next
  case (Cons rec R)
  from Cons.prems have ok: "rec_ok rec" and i: "the (raw_id rec) \<in> card_ids (conn u)"
    by simp_all
  from ok obtain cid img where h: "raw_id rec = Some cid" "image_uri_of rec = Inr img"
    by (cases "image_uri_of rec") (auto simp: rec_ok_def)
  define row where "row = card_data rec cid img (now ev (ticks u))"
  obtain u' where p: "process_card ev True u rec = (None, u')"
    and c: "cards_table (conn u') = map (\<lambda>r. if col_id r = cid then row else r) (cards_table (conn u))"
    using process_card_again [OF ok i, of ev] h
    by (cases "process_card ev True u rec") (simp add: row_def)
  have "map col_id (cards_table (conn u')) = map col_id (cards_table (conn u))"
    unfolding c by (rule map_col_id_update) (simp add: row_def)
  then have ids: "card_ids (conn u') = card_ids (conn u)"
    unfolding card_ids_def set_map [symmetric] by simp
  with Cons.prems have "\<forall>rec \<in> set R. rec_ok rec \<and> the (raw_id rec) \<in> card_ids (conn u')"
    by simp
  from Cons.IH [OF this] have a: "fst (process_cards ev True u' R) = None"
    and b: "map strip_stamp (cards_table (conn (snd (process_cards ev True u' R)))) =
           refresh R (cards_table (conn u'))"
    by simp_all
  have "refresh R (cards_table (conn u')) = refresh (rec # R) (cards_table (conn u))"
    unfolding c refresh_def map_map
  proof (rule map_cong [OF refl])
    fix r assume "r \<in> set (cards_table (conn u))"
    have n: "strip_stamp row = normalized rec" "col_id row = cid"
      by (simp_all add: row_def strip_stamp_card_data h)
    show "((\<lambda>row. case last_for R (col_id row) of None \<Rightarrow> strip_stamp row
                  | Some rec \<Rightarrow> normalized rec) \<circ>
           (\<lambda>r. if col_id r = cid then row else r)) r =
          (case last_for (rec # R) (col_id r) of None \<Rightarrow> strip_stamp r
           | Some rec \<Rightarrow> normalized rec)"
      by (auto simp: last_for_Cons h n split: option.splits)
  qed
  with a b p show ?case
    by simp
qed

lemma process_card_untouched:
  assumes "process_card ev True s rec = (None, s')" "row \<in> set (cards_table (conn s'))"
    "raw_id rec \<noteq> Some (col_id row)"
  shows "row \<in> set (cards_table (conn s))"
proof -
  from assms(1) obtain cid img where h: "raw_id rec = Some cid"
    and c: "cards_table (conn s') =
       (if cid \<in> card_ids (conn s)
        then map (\<lambda>r. if col_id r = cid then card_data rec cid img (now ev (ticks s)) else r)
               (cards_table (conn s))
        else cards_table (conn s) @ [card_data rec cid img (now ev (ticks s))])"
    by (rule process_card_update_mode)
  from assms(2,3) h show ?thesis
    unfolding c by (auto split: if_splits)
qed

lemma process_cards_untouched:
  assumes "process_cards ev True s R = (None, s1)" "row \<in> set (cards_table (conn s1))"
    "\<forall>rec \<in> set R. raw_id rec \<noteq> Some (col_id row)"
  shows "row \<in> set (cards_table (conn s))"
  using assms
proof (induction R arbitrary: s)
  case Nil
  then show ?case by simp
next
  case (Cons rec R)
  from Cons.prems(1) obtain s' where 1: "process_card ev True s rec = (None, s')"
    and 2: "process_cards ev True s' R = (None, s1)"
    by (auto split: prod.splits option.splits)
  from Cons.IH [OF 2 Cons.prems(2)] Cons.prems(3) have "row \<in> set (cards_table (conn s'))"
    by simp
  from process_card_untouched [OF 1 this] Cons.prems(3) show ?case
    by simp
qed

lemma process_card_written:
  assumes "process_card ev True s rec = (None, s')" "row \<in> set (cards_table (conn s'))"
    "raw_id rec = Some (col_id row)"
  shows "strip_stamp row = normalized rec"
proof -
  from assms(1) obtain cid img where h: "raw_id rec = Some cid" "image_uri_of rec = Inr img"
    and c: "cards_table (conn s') =
       (if cid \<in> card_ids (conn s)
        then map (\<lambda>r. if col_id r = cid then card_data rec cid img (now ev (ticks s)) else r)
               (cards_table (conn s))
        else cards_table (conn s) @ [card_data rec cid img (now ev (ticks s))])"
    by (rule process_card_update_mode)
  from assms(3) h have cid: "cid = col_id row" by simp
  have "row = card_data rec cid img (now ev (ticks s))"
    using assms(2) unfolding c by (auto simp: cid card_ids_def split: if_splits)
  then show ?thesis
    by (simp add: strip_stamp_card_data h)
qed

lemma process_cards_first:
  assumes "process_cards ev True s R = (None, s1)" "row \<in> set (cards_table (conn s1))"
    "last_for R (col_id row) = Some rec"
  shows "strip_stamp row = normalized rec"
  using assms
proof (induction R arbitrary: s)
  case Nil
  then show ?case by (simp add: last_for_def)
next
  case (Cons r R)
  from Cons.prems(1) obtain s' where 1: "process_card ev True s r = (None, s')"
    and 2: "process_cards ev True s' R = (None, s1)"
    by (auto split: prod.splits option.splits)
  show ?case
  proof (cases "last_for R (col_id row)")
    case (Some x)
    with Cons.prems(3) have "x = rec"
      by (simp add: last_for_Cons)
    with Cons.IH [OF 2 Cons.prems(2)] Some show ?thesis
      by simp
  next
    case None
    with Cons.prems(3) have r: "raw_id r = Some (col_id row)" "rec = r"
      by (auto simp: last_for_Cons split: if_splits)
    from None have "\<forall>rec \<in> set R. raw_id rec \<noteq> Some (col_id row)"
      by (simp add: last_for_None)
    from process_cards_untouched [OF 2 Cons.prems(2) this]
    have "row \<in> set (cards_table (conn s'))" .
    from process_card_written [OF 1 this r(1)] r(2) show ?thesis
      by simp
  qed
qed

lemma process_cards_twice:
  assumes "process_cards ev True s R = (None, s1)"
  shows "fst (process_cards ev True s1 R) = None \<and>
         map strip_stamp (cards_table (conn (snd (process_cards ev True s1 R)))) =
           map strip_stamp (cards_table (conn s1))"
proof -
  from process_cards_ok [OF assms]
  have ok: "\<forall>rec \<in> set R. rec_ok rec \<and> the (raw_id rec) \<in> card_ids (conn s1)"
    by simp
  have "refresh R (cards_table (conn s1)) = map strip_stamp (cards_table (conn s1))"
    unfolding refresh_def
    by (rule map_cong [OF refl]) (auto split: option.splits dest: process_cards_first [OF assms])
  with process_cards_again [OF ok, of ev] show ?thesis
    by simp
qed


subsection \<open>Two full runs\<close>

text \<open>
  Two full runs over a catalogue that does not change: each returns normally, and the
  second stamps every row of \<^verbatim>\<open>cards\<close> with the time of its own writing, so the table is
  not what it was after the first.
\<close>

theorem second_sync_restamps_counterexample:
  "fetch_all_cards ticking_catalogue True new_database = Some (None, first_sync) \<and>
   fetch_all_cards ticking_catalogue True first_sync = Some (None, second_sync) \<and>
   map col_last_updated (cards_table (conn first_sync)) =
     [Some ''2026-01-01T00:00:02'', Some ''2026-01-01T00:00:01''] \<and>
   map col_last_updated (cards_table (conn second_sync)) =
     [Some ''2026-01-01T00:00:05'', Some ''2026-01-01T00:00:04''] \<and>
   cards_table (conn second_sync) \<noteq> cards_table (conn first_sync)"
  by code_simp

text \<open>
  C1, as the code has it: when a full run in update mode returns normally, a second full run
  over the same catalogue returns normally too and leaves in \<^verbatim>\<open>cards\<close> the same rows in
  the same order, equal in every column but \<^verbatim>\<open>last_updated\<close>; and when no primary key
  of \<^verbatim>\<open>legalities\<close> and \<^verbatim>\<open>keywords\<close> was repeated before the first run, none is
  repeated after the first or after the second.
\<close>

theorem full_sync_idempotent:
  assumes "fetch_all_cards ev True s = Some (None, s1)"
    and "keys_distinct (conn s)"
  shows "\<exists>s2. fetch_all_cards ev True s1 = Some (None, s2) \<and>
           map strip_stamp (cards_table (conn s2)) = map strip_stamp (cards_table (conn s1)) \<and>
           keys_distinct (conn s1) \<and> keys_distinct (conn s2)"
proof -
  from fetch_more_trace [of ev True first_page s "(None, s1)"] assms(1)
  obtain R where a: "fst (process_cards ev True s R) = None"
    and b: "core s1 = core (snd (process_cards ev True s R))"
    and c: "\<And>u. fst (process_cards ev True u R) = None \<Longrightarrow>
           \<exists>u1. fetch_all_cards ev True u = Some (None, u1) \<and>
              core u1 = core (snd (process_cards ev True u R))"
    by (auto simp: fetch_all_cards_fetch_more)
  define sA where "sA = snd (process_cards ev True s R)"
  from a have run: "process_cards ev True s R = (None, sA)"
    by (simp add: sA_def prod_eq_iff)
  from b have conn1: "conn s1 = conn sA"
    by (simp add: core_def sA_def)
  from process_cards_twice [OF run]
  have again: "fst (process_cards ev True sA R) = None"
    and same: "map strip_stamp (cards_table (conn (snd (process_cards ev True sA R)))) =
           map strip_stamp (cards_table (conn sA))"
    by simp_all
  from b have "core sA = core s1"
    by (simp add: sA_def)
  from process_cards_core [OF this, of ev True R] again
  have again1: "fst (process_cards ev True s1 R) = None"
    and core1: "core (snd (process_cards ev True s1 R)) = core (snd (process_cards ev True sA R))"
    by simp_all
  from c [OF again1] obtain s2 where run2: "fetch_all_cards ev True s1 = Some (None, s2)"
    and core2: "core s2 = core (snd (process_cards ev True s1 R))"
    by blast
  from core1 core2 have conn2: "conn s2 = conn (snd (process_cards ev True sA R))"
    "conn s2 = conn (snd (process_cards ev True s1 R))"
    by (simp_all add: core_def)
  have k1: "keys_distinct (conn s1)"
    using process_cards_keys_distinct [OF assms(2), of ev True R] by (simp add: conn1 sA_def)
  have k2: "keys_distinct (conn s2)"
    using process_cards_keys_distinct [OF k1, of ev True R] by (simp add: conn2(2))
  from run2 same k1 k2 show ?thesis
    by (auto simp: conn1 conn2(1))
qed

theorem full_sync_idempotent_witness:
  "fetch_all_cards ticking_catalogue True new_database = Some (None, first_sync) \<and>
   keys_distinct (conn new_database) \<and>
   fetch_all_cards ticking_catalogue True first_sync = Some (None, second_sync) \<and>
   map strip_stamp (cards_table (conn second_sync)) =
     map strip_stamp (cards_table (conn first_sync)) \<and>
   map col_id (cards_table (conn first_sync)) = [''c1'', ''c2''] \<and>
   legalities_table (conn second_sync) = [(''c1'', ''modern'', ''legal'')] \<and>
   keys_distinct (conn second_sync)"
proof -
  have h1: "fetch_all_cards ticking_catalogue True new_database = Some (None, first_sync)"
    by code_simp
  have h2: "keys_distinct (conn new_database)"
    by code_simp
  have r2: "fetch_all_cards ticking_catalogue True first_sync = Some (None, second_sync)"
    by code_simp
  have ids: "map col_id (cards_table (conn first_sync)) = [''c1'', ''c2'']"
    by code_simp
  have leg: "legalities_table (conn second_sync) = [(''c1'', ''modern'', ''legal'')]"
    by code_simp
  from full_sync_idempotent [OF h1 h2] r2
  have "map strip_stamp (cards_table (conn second_sync)) =
     map strip_stamp (cards_table (conn first_sync))" "keys_distinct (conn second_sync)"
    by auto
  with h1 h2 r2 ids leg show ?thesis
    by (intro conjI)
qed


subsection \<open>An upsert of a stored card\<close>





subsection \<open>Searching\<close>

text \<open>
  What LIKE decides for the patterns that \<^verbatim>\<open>search_cards\<close> builds: a pattern that
  begins with literal characters, a word behind \<^verbatim>\<open>%\<close>, and \<^verbatim>\<open>_\<close>.
\<close>

lemma utf8_skip_suffix: "suffix (utf8_skip s) s"
proof (cases s)
  case Nil
  then show ?thesis by simp
next
  case (Cons c cs)
  have "suffix (dropWhile utf8_continuation cs) cs"
    by (rule suffix_dropWhile)
  then show ?thesis
    using Cons by (auto simp: suffix_Cons)
qed

lemma sql_like_literal_then:
  assumes "CHR ''%'' \<notin> set w" "CHR ''_'' \<notin> set w"
  shows "sql_like (w @ ps) s \<longleftrightarrow>
     (\<exists>m rest. s = m @ rest \<and> map ascii_lower m = map ascii_lower w \<and> sql_like ps rest)"
  using assms
proof (induction w arbitrary: s)
  case Nil
  then show ?case by simp
next
  case (Cons c w)
  from Cons.prems have c: "c \<noteq> CHR ''%''" "c \<noteq> CHR ''_''"
    and w: "CHR ''%'' \<notin> set w" "CHR ''_'' \<notin> set w"
    by auto
  note IH = Cons.IH [OF w]
  show ?case
  proof (cases s)
    case Nil
    then show ?thesis
      using sql_like_char [OF c, of "w @ ps" s] by simp
  next
    case (Cons d ds)
    have "sql_like ((c # w) @ ps) s \<longleftrightarrow> ascii_lower c = ascii_lower d \<and> sql_like (w @ ps) ds"
      using sql_like_char [OF c, of "w @ ps" s] Cons by simp
    also have "\<dots> \<longleftrightarrow> ascii_lower c = ascii_lower d \<and>
        (\<exists>m rest. ds = m @ rest \<and> map ascii_lower m = map ascii_lower w \<and> sql_like ps rest)"
      by (simp add: IH)
    also have "\<dots> \<longleftrightarrow> (\<exists>m rest. s = m @ rest \<and> map ascii_lower m = map ascii_lower (c # w) \<and>
        sql_like ps rest)"
    proof
      assume "ascii_lower c = ascii_lower d \<and>
        (\<exists>m rest. ds = m @ rest \<and> map ascii_lower m = map ascii_lower w \<and> sql_like ps rest)"
      then obtain m rest where "ascii_lower c = ascii_lower d" "ds = m @ rest"
        "map ascii_lower m = map ascii_lower w" "sql_like ps rest"
        by blast
      then have "s = (d # m) @ rest \<and> map ascii_lower (d # m) = map ascii_lower (c # w) \<and>
        sql_like ps rest"
        using Cons by simp
      then show "\<exists>m rest. s = m @ rest \<and> map ascii_lower m = map ascii_lower (c # w) \<and>
        sql_like ps rest"
        by blast
    next
      assume "\<exists>m rest. s = m @ rest \<and> map ascii_lower m = map ascii_lower (c # w) \<and>
        sql_like ps rest"
      then obtain m rest where m: "s = m @ rest" "map ascii_lower m = map ascii_lower (c # w)"
        "sql_like ps rest"
        by blast
      from m(2) obtain e m' where e: "m = e # m'" "ascii_lower e = ascii_lower c"
        "map ascii_lower m' = map ascii_lower w"
        by (cases m) auto
      with m(1) Cons have "d = e" "ds = m' @ rest"
        by simp_all
      with e m(3) show "ascii_lower c = ascii_lower d \<and>
        (\<exists>m rest. ds = m @ rest \<and> map ascii_lower m = map ascii_lower w \<and> sql_like ps rest)"
        by auto
    qed
    finally show ?thesis .
  qed
qed


lemma dropWhile_keeps:
  assumes "ys \<noteq> []" "\<not> P (hd ys)"
  shows "\<exists>zs. dropWhile P (xs @ ys) = zs @ ys"
proof (induction xs)
  case Nil
  from assms have "dropWhile P ys = ys"
    by (cases ys) auto
  then show ?case by simp
next
  case (Cons x xs)
  show ?case
  proof (cases "P x")
    case True
    with Cons show ?thesis by simp
  next
    case False
    then have "dropWhile P ((x # xs) @ ys) = (x # xs) @ ys"
      by simp
    then show ?thesis by blast
  qed
qed

lemma sql_like_contains_then:
  assumes "plain_word w"
  shows "sql_like (CHR ''%'' # w @ ps) s \<longleftrightarrow>
     (\<exists>pre m rest. s = pre @ m @ rest \<and> map ascii_lower m = map ascii_lower w \<and>
        sql_like ps rest)"
proof (induction "length s" arbitrary: s rule: less_induct)
  case less
  have w: "CHR ''%'' \<notin> set w" "CHR ''_'' \<notin> set w" "w \<noteq> []" "\<not> utf8_continuation (hd w)"
    using assms by (auto simp: plain_word_def)
  let ?Q = "\<lambda>s. \<exists>pre m rest. s = pre @ m @ rest \<and> map ascii_lower m = map ascii_lower w \<and>
        sql_like ps rest"
  have IH: "sql_like (CHR ''%'' # w @ ps) (utf8_skip s) \<longleftrightarrow> ?Q (utf8_skip s)" if "s \<noteq> []"
    using that by (intro less length_utf8_skip)
  have step: "sql_like (CHR ''%'' # w @ ps) s \<longleftrightarrow>
      (\<exists>m rest. s = m @ rest \<and> map ascii_lower m = map ascii_lower w \<and> sql_like ps rest) \<or>
      (s \<noteq> [] \<and> ?Q (utf8_skip s))"
    using IH by (subst sql_like_any) (auto simp: sql_like_literal_then [OF w(1,2)])
  show ?case
  proof
    assume "sql_like (CHR ''%'' # w @ ps) s"
    with step consider
      (here) m rest where "s = m @ rest" "map ascii_lower m = map ascii_lower w" "sql_like ps rest"
      | (later) pre m rest where "utf8_skip s = pre @ m @ rest"
          "map ascii_lower m = map ascii_lower w" "sql_like ps rest"
      by blast
    then show "?Q s"
    proof cases
      case here
      then have "s = [] @ m @ rest" by simp
      with here show ?thesis by blast
    next
      case later
      from utf8_skip_suffix [of s] obtain d where "s = d @ utf8_skip s"
        by (auto simp: suffix_def)
      with later have "s = (d @ pre) @ m @ rest" by simp
      with later show ?thesis by blast
    qed
  next
    assume "?Q s"
    then obtain pre m rest where q: "s = pre @ m @ rest" "map ascii_lower m = map ascii_lower w"
      "sql_like ps rest"
      by blast
    show "sql_like (CHR ''%'' # w @ ps) s"
    proof (cases pre)
      case Nil
      with q step show ?thesis by auto
    next
      case (Cons c pre')
      from q(2) w(3) have m: "m \<noteq> []" by auto
      with q(2) have "ascii_lower (hd m) = ascii_lower (hd w)"
        using w(3) by (cases m; cases w) auto
      with w(4) have h: "\<not> utf8_continuation (hd m)"
        by (metis ascii_lower_continuation(2))
      from m h have mr: "m @ rest \<noteq> []" "\<not> utf8_continuation (hd (m @ rest))"
        by simp_all
      from dropWhile_keeps [of "m @ rest" utf8_continuation pre', OF mr] obtain zs
        where "dropWhile utf8_continuation (pre' @ m @ rest) = zs @ m @ rest"
        by auto
      with Cons q(1) have "\<exists>pre''. utf8_skip s = pre'' @ m @ rest"
        by auto
      with q(2,3) have "?Q (utf8_skip s)" by blast
      moreover from Cons q(1) have "s \<noteq> []" by simp
      ultimately show ?thesis
        using step by blast
    qed
  qed
qed


lemma sql_like_one:
  "sql_like (CHR ''_'' # ps) s \<longleftrightarrow> s \<noteq> [] \<and> sql_like ps (utf8_skip s)"
  by (subst sql_like.simps) simp

lemma occurs_then_iff:
  "occurs_then a P s \<longleftrightarrow>
     (\<exists>pre m rest. s = pre @ m @ rest \<and> map ascii_lower m = map ascii_lower a \<and> P rest)"
proof
  assume "occurs_then a P s"
  then have "\<exists>i \<in> set [0..<Suc (length s)].
      prefix (map ascii_lower a) (map ascii_lower (drop i s)) \<and> P (drop (i + length a) s)"
    unfolding occurs_then_def list_ex_iff .
  then obtain i where p: "prefix (map ascii_lower a) (map ascii_lower (drop i s))"
    and r: "P (drop (i + length a) s)"
    by blast
  from p have len: "length a \<le> length (drop i s)"
    using prefix_length_le by fastforce
  from p have "take (length a) (map ascii_lower (drop i s)) = map ascii_lower a"
    by (auto simp: prefix_def)
  then have m: "map ascii_lower (take (length a) (drop i s)) = map ascii_lower a"
    by (simp add: take_map)
  have "s = take i s @ take (length a) (drop i s) @ drop (i + length a) s"
    by (metis add.commute append_take_drop_id drop_drop)
  with m r show "\<exists>pre m rest. s = pre @ m @ rest \<and> map ascii_lower m = map ascii_lower a \<and> P rest"
    by blast
next
  assume "\<exists>pre m rest. s = pre @ m @ rest \<and> map ascii_lower m = map ascii_lower a \<and> P rest"
  then obtain pre m rest where s: "s = pre @ m @ rest"
    and m: "map ascii_lower m = map ascii_lower a" and r: "P rest"
    by blast
  from m have len: "length m = length a"
    by (metis length_map)
  have 1: "length pre \<le> length s"
    by (simp add: s)
  have 2: "prefix (map ascii_lower a) (map ascii_lower (drop (length pre) s))"
    by (simp add: s m [symmetric])
  have 3: "P (drop (length pre + length a) s)"
    using r by (simp add: s len [symmetric])
  from 1 have "length pre \<in> set [0..<Suc (length s)]"
    by (simp del: upt_Suc)
  with 2 3 show "occurs_then a P s"
    unfolding occurs_then_def list_ex_iff by blast
qed

lemma like_plain:
  assumes "plain_word w"
  shows "sql_like (''%'' @ w @ ''%'') s \<longleftrightarrow> occurs w s"
  using sql_like_contains [OF assms, of s] by (simp add: occurs_def)

lemma like_any_run:
  assumes "plain_word a" "plain_word b"
  shows "sql_like (''%'' @ (a @ ''%'' @ b) @ ''%'') s \<longleftrightarrow> occurs_then a (occurs b) s"
  using sql_like_contains_then [OF assms(1), of "CHR ''%'' # b @ ''%''" s]
  by (simp add: occurs_then_iff sql_like_contains [OF assms(2)] occurs_def)

lemma like_one_character:
  assumes "plain_word a" "CHR ''%'' \<notin> set b" "CHR ''_'' \<notin> set b"
  shows "sql_like (''%'' @ (a @ ''_'' @ b) @ ''%'') s \<longleftrightarrow> occurs_then a (one_character_then b) s"
  using sql_like_contains_then [OF assms(1), of "CHR ''_'' # b @ ''%''" s]
  by (simp add: occurs_then_iff sql_like_one sql_like_literal [OF assms(2,3)]
      one_character_then_def)

lemma summary_rows:
  "map (\<lambda>r. \<lparr> res_id = col_id r, res_name = col_name r,
                res_oracle_text = col_oracle_text r, res_mana_cost = col_mana_cost r,
                res_type_line = col_type_line r \<rparr>) rows = map summary rows"
  by (simp add: summary_def)

lemma search_cards_rows:
  "search_cards t query limit =
     sql_limit limit
       (map summary (filter (in_fields (sql_like (''%'' @ query @ ''%''))) (cards_table t)))"
proof -
  have f: "(\<lambda>r. sql_like (''%'' @ query @ ''%'') (col_name r)
                 \<or> column_like (col_oracle_text r) (''%'' @ query @ ''%'')
                 \<or> column_like (col_type_line r) (''%'' @ query @ ''%'')) =
           in_fields (sql_like (''%'' @ query @ ''%''))"
    by (rule ext) (simp add: in_fields_def column_like_def)
  show ?thesis
    unfolding search_cards_def Let_def f summary_rows
    by (simp add: sql_limit_def take_map)
qed

text \<open>
  C10: \<^verbatim>\<open>search_cards\<close> returns, in the order of the table and cut at the limit, the five
  columns of the rows of which the name, the text or the type line satisfies LIKE with the
  query between two \<^verbatim>\<open>%\<close>; a text or a type line that is NULL never does. For a query
  that is a word without \<^verbatim>\<open>%\<close> and \<^verbatim>\<open>_\<close>, LIKE holds when the word occurs in the field,
  the ASCII letters compared without regard to case. A \<^verbatim>\<open>%\<close> between two words of the
  query does not stand for itself: LIKE holds when the first word occurs and the second one
  occurs anywhere behind it. A \<^verbatim>\<open>_\<close> between two words stands for exactly one character.
  In the store of three cards the query \<^verbatim>\<open>D%n\<close> returns the card named Dragon, of which
  no searched field contains \<^verbatim>\<open>D%n\<close>, and the query \<^verbatim>\<open>D%x\<close> returns nothing; the query
  \<^verbatim>\<open>Dr_gon\<close> returns the same card and \<^verbatim>\<open>Dr_on\<close> returns nothing; a card is found by
  its text and another by its type line.
\<close>

theorem search_wildcards:
  "search_cards t query limit =
     sql_limit limit
       (map summary (filter (in_fields (sql_like (''%'' @ query @ ''%''))) (cards_table t))) \<and>
   (plain_word w \<longrightarrow> (sql_like (''%'' @ w @ ''%'') s \<longleftrightarrow> occurs w s)) \<and>
   (plain_word a \<and> plain_word b \<longrightarrow>
      (sql_like (''%'' @ (a @ ''%'' @ b) @ ''%'') s \<longleftrightarrow> occurs_then a (occurs b) s)) \<and>
   (plain_word a \<and> CHR ''%'' \<notin> set b \<and> CHR ''_'' \<notin> set b \<longrightarrow>
      (sql_like (''%'' @ (a @ ''_'' @ b) @ ''%'') s \<longleftrightarrow>
         occurs_then a (one_character_then b) s)) \<and>
   map (\<lambda>r. (res_name r, res_oracle_text r, res_type_line r)) (search_cards small_store ''D%n'' 20) =
     [(''Dragon'', Some '''', Some '''')] \<and>
   \<not> sublist ''D%n'' ''Dragon'' \<and> \<not> sublist ''D%n'' '''' \<and>
   search_cards small_store ''D%x'' 20 = [] \<and>
   map res_name (search_cards small_store ''Dr_gon'' 20) = [''Dragon''] \<and>
   \<not> sublist ''Dr_gon'' ''Dragon'' \<and>
   search_cards small_store ''Dr_on'' 20 = [] \<and>
   map res_name (search_cards small_store ''damage'' 20) = [''Shock''] \<and>
   map res_name (search_cards small_store ''land'' 20) = [''Forest''] \<and>
   map res_name (search_cards small_store '''' 2) = [''Dragon'', ''Shock'']"
proof -
  have inst: "map (\<lambda>r. (res_name r, res_oracle_text r, res_type_line r))
       (search_cards small_store ''D%n'' 20) = [(''Dragon'', Some '''', Some '''')] \<and>
   \<not> sublist ''D%n'' ''Dragon'' \<and> \<not> sublist ''D%n'' '''' \<and>
   search_cards small_store ''D%x'' 20 = [] \<and>
   map res_name (search_cards small_store ''Dr_gon'' 20) = [''Dragon''] \<and>
   \<not> sublist ''Dr_gon'' ''Dragon'' \<and>
   search_cards small_store ''Dr_on'' 20 = [] \<and>
   map res_name (search_cards small_store ''damage'' 20) = [''Shock''] \<and>
   map res_name (search_cards small_store ''land'' 20) = [''Forest''] \<and>
   map res_name (search_cards small_store '''' 2) = [''Dragon'', ''Shock'']"
    by code_simp
  from search_cards_rows [of t query limit]
    like_plain [of w s] like_any_run [of a b s] like_one_character [of a b s] inst
  show ?thesis
    by blast
qed

theorem search_wildcards_witness:
  "plain_word ''D'' \<and> plain_word ''n'' \<and> plain_word ''Dr'' \<and> plain_word ''land'' \<and>
   CHR ''%'' \<notin> set ''gon'' \<and> CHR ''_'' \<notin> set ''gon'' \<and>
   occurs_then ''D'' (occurs ''n'') ''Dragon'' \<and> sql_like ''%D%n%'' ''Dragon'' \<and>
   \<not> occurs_then ''D'' (occurs ''x'') ''Dragon'' \<and> \<not> sql_like ''%D%x%'' ''Dragon'' \<and>
   occurs_then ''Dr'' (one_character_then ''gon'') ''Dragon'' \<and> sql_like ''%Dr_gon%'' ''Dragon'' \<and>
   \<not> occurs_then ''Dr'' (one_character_then ''on'') ''Dragon'' \<and>
   \<not> sql_like ''%Dr_on%'' ''Dragon'' \<and>
   occurs ''land'' ''Basic Land'' \<and> sql_like ''%land%'' ''Basic Land'' \<and>
   \<not> occurs ''land'' ''Dragon'' \<and> \<not> sql_like ''%land%'' ''Dragon'' \<and>
   map res_name (search_cards small_store ''a'' 1) = [''Dragon''] \<and>
   map res_name (search_cards small_store ''a'' (- 1)) = [''Dragon'', ''Shock'', ''Forest'']"
proof -
  have p: "plain_word ''D''" "plain_word ''n''" "plain_word ''Dr''" "plain_word ''land''"
    "plain_word ''x''"
    by (simp_all add: plain_word_def utf8_continuation_def)
  have q: "CHR ''%'' \<notin> set ''gon''" "CHR ''_'' \<notin> set ''gon''"
    "CHR ''%'' \<notin> set ''on''" "CHR ''_'' \<notin> set ''on''"
    by simp_all
  have e: "occurs_then ''D'' (occurs ''n'') ''Dragon''"
    "\<not> occurs_then ''D'' (occurs ''x'') ''Dragon''"
    "occurs_then ''Dr'' (one_character_then ''gon'') ''Dragon''"
    "\<not> occurs_then ''Dr'' (one_character_then ''on'') ''Dragon''"
    "occurs ''land'' ''Basic Land''" "\<not> occurs ''land'' ''Dragon''"
    by code_simp+
  have r: "map res_name (sql_limit 1
      (map summary (filter (in_fields (sql_like (''%'' @ ''a'' @ ''%''))) (cards_table small_store)))) =
      [''Dragon'']"
    "map res_name (sql_limit (- 1)
      (map summary (filter (in_fields (sql_like (''%'' @ ''a'' @ ''%''))) (cards_table small_store)))) =
      [''Dragon'', ''Shock'', ''Forest'']"
    by code_simp+
  have 1: "sql_like ''%D%n%'' ''Dragon''"
    using search_wildcards [of small_store "''a''" 1 "''land''" "''Dragon''" "''D''" "''n''"]
      p e by simp
  have 2: "\<not> sql_like ''%D%x%'' ''Dragon''"
    using search_wildcards [of small_store "''a''" 1 "''land''" "''Dragon''" "''D''" "''x''"]
      p e by simp
  have 3: "sql_like ''%Dr_gon%'' ''Dragon''"
    using search_wildcards [of small_store "''a''" 1 "''land''" "''Dragon''" "''Dr''" "''gon''"]
      p q e by simp
  have 4: "\<not> sql_like ''%Dr_on%'' ''Dragon''"
    using search_wildcards [of small_store "''a''" 1 "''land''" "''Dragon''" "''Dr''" "''on''"]
      p q e by simp
  have 5: "sql_like ''%land%'' ''Basic Land''"
    using search_wildcards [of small_store "''a''" 1 "''land''" "''Basic Land''" "''D''" "''n''"]
      p e by simp
  have 6: "\<not> sql_like ''%land%'' ''Dragon''"
    using search_wildcards [of small_store "''a''" 1 "''land''" "''Dragon''" "''D''" "''n''"]
      p e by simp
  have "search_cards small_store ''a'' 1 = sql_limit 1
      (map summary (filter (in_fields (sql_like (''%'' @ ''a'' @ ''%''))) (cards_table small_store)))"
    using search_wildcards [of small_store "''a''" 1 "''land''" "''Dragon''" "''D''" "''n''"]
    by blast
  with r(1) have 7: "map res_name (search_cards small_store ''a'' 1) = [''Dragon'']"
    by simp
  have "search_cards small_store ''a'' (- 1) = sql_limit (- 1)
      (map summary (filter (in_fields (sql_like (''%'' @ ''a'' @ ''%''))) (cards_table small_store)))"
    using search_wildcards [of small_store "''a''" "- 1" "''land''" "''Dragon''" "''D''" "''n''"]
    by blast
  with r(2) have 8: "map res_name (search_cards small_store ''a'' (- 1)) = [''Dragon'', ''Shock'', ''Forest'']"
    by simp
  from p(1-4) q(1,2) e 1 2 3 4 5 6 7 8 show ?thesis
    by (intro conjI)
qed

end
